theory Spec2Isabelle
  imports Complex_Main "HOL-Library.Sublist"
begin

section \<open>Text\<close>

text \<open>
  A Python \<open>str\<close> is modelled by the \<^typ>\<open>string\<close> of its UTF-8 bytes. The operations
  the sources use on text (\<open>startswith\<close>, \<open>in\<close>, \<open>split("/")\<close>, \<open>==\<close>, concatenation)
  give the same answers on the UTF-8 bytes as on the code points, since no UTF-8 encoding
  of a character occurs inside the encoding of another.
\<close>

fun startswith :: "string \<Rightarrow> string \<Rightarrow> bool" where
  "startswith s [] = True"
| "startswith [] (p # ps) = False"
| "startswith (c # s) (p # ps) = (c = p \<and> startswith s ps)"

text \<open>\<open>contains s sub\<close> is Python's \<open>sub in s\<close>.\<close>

fun contains :: "string \<Rightarrow> string \<Rightarrow> bool" where
  "contains [] sub = (sub = [])"
| "contains (c # s) sub = (startswith (c # s) sub \<or> contains s sub)"

text \<open>\<open>str_split sep s\<close> is Python's \<open>s.split(sep)\<close> for a separator of one character.\<close>

fun str_split :: "char \<Rightarrow> string \<Rightarrow> string list" where
  "str_split sep [] = [[]]"
| "str_split sep (c # s) =
     (if c = sep then [] # str_split sep s
      else (case str_split sep s of
              [] \<Rightarrow> [[c]]
            | piece # pieces \<Rightarrow> (c # piece) # pieces))"

definition digit_char :: "nat \<Rightarrow> char" where
  "digit_char d = ''0123456789'' ! d"

text \<open>\<open>str_nat n\<close> is Python's \<open>str(n)\<close> for \<open>n \<ge> 0\<close>: the decimal digits.\<close>

function str_nat :: "nat \<Rightarrow> string" where
  "str_nat n = (if n < 10 then [digit_char n] else str_nat (n div 10) @ [digit_char (n mod 10)])"
  by pat_completeness auto
termination
  by (relation "measure id") auto

declare str_nat.simps [simp del]

definition str_int :: "int \<Rightarrow> string" where
  "str_int i = (if i < 0 then ''-'' @ str_nat (nat (- i)) else str_nat (nat i))"

text \<open>
  \<open>format_03d i\<close> is the format \<open>f"{i:03d}"\<close>: the decimal digits padded with zeros
  to three characters, the sign included.
\<close>

definition format_03d :: "int \<Rightarrow> string" where
  "format_03d i =
     (if i < 0
      then ''-'' @ replicate (2 - length (str_nat (nat (- i)))) CHR ''0'' @ str_nat (nat (- i))
      else replicate (3 - length (str_nat (nat i))) CHR ''0'' @ str_nat (nat i))"

section \<open>Byte sizes (telegram\_utils.format\_bytes, bot\_downloader.format\_bytes)\<close>

text \<open>
  \<open>format_bytes\<close> divides by \<open>1024.0\<close> and prints with \<open>:.2f\<close>. Its argument is modelled
  by the rational number it denotes. Dividing a float by \<open>1024.0\<close> only lowers the
  exponent, so every intermediate value of the loop is the exact quotient, and \<open>:.2f\<close>
  prints the decimal nearest to the exact value, a tie going to the even digit
  (\<open>round_half_even\<close>). The model is therefore exact for every finite float and for every
  int a float holds exactly (up to \<open>2^53\<close>).
\<close>

definition round_half_even :: "rat \<Rightarrow> int" where
  "round_half_even q =
     (let f = \<lfloor>q\<rfloor>; d = q - of_int f
      in if d < 1 / 2 then f else if 1 / 2 < d then f + 1 else if even f then f else f + 1)"

definition format_2f :: "rat \<Rightarrow> string" where
  "format_2f q =
     (let n = nat (round_half_even (\<bar>q\<bar> * 100))
      in (if q < 0 then ''-'' else '''') @ str_nat (n div 100) @ ''.'' @
         [digit_char (n mod 100 div 10), digit_char (n mod 10)])"

text \<open>The \<open>for unit in [...]\<close> loop, with the \<open>TB\<close> return after it.\<close>

fun format_units :: "string list \<Rightarrow> rat \<Rightarrow> string" where
  "format_units [] bytes_size = format_2f bytes_size @ ''TB''"
| "format_units (unit # units) bytes_size =
     (if bytes_size < 1024 then format_2f bytes_size @ unit
      else format_units units (bytes_size / 1024))"

definition format_bytes :: "rat \<Rightarrow> string" where
  "format_bytes bytes_size = format_units [''B'', ''KB'', ''MB'', ''GB''] bytes_size"

section \<open>Messages and their media\<close>

text \<open>
  What the sources read of a Telethon message. \<open>photo\<close> and \<open>video\<close> hold the truth value
  of \<open>msg.photo\<close> and \<open>msg.video\<close>, \<open>document\<close> the \<open>mime_type\<close> of \<open>msg.document\<close>
  (\<open>None\<close> when the message has no document), \<open>buttons\<close> the rows of \<open>msg.buttons\<close>
  (\<open>[]\<close> when it is \<open>None\<close>). A button's \<open>btn_data\<close> is its callback data, a byte string;
  \<open>None\<close> when the button has no \<open>data\<close>.
\<close>

record button =
  btn_text :: string
  btn_data :: "string option"

record message =
  msg_id :: int
  out :: bool
  photo :: bool
  video :: bool
  document :: "string option"
  buttons :: "button list list"

definition has_media :: "message \<Rightarrow> bool" where
  "has_media msg = (photo msg \<or> video msg \<or> document msg \<noteq> None)"

datatype kind = Image | Video | File

text \<open>
  The classification block that opens the \<open>try\<close> of \<open>download_media_messages\<close>
  (bot\_downloader, lines 217--243) and of \<open>download_media_from_message\<close>
  (channel\_comments\_downloader, lines 62--88; topic\_downloader, lines 61--87); the three
  copies are the same text. \<open>Image\<close> is \<open>is_image\<close>, \<open>Video\<close> is \<open>is_video\<close>, \<open>File\<close> is
  neither; \<open>None\<close> is the final \<open>else\<close> (no media).
\<close>

definition classify :: "message \<Rightarrow> (kind \<times> string) option" where
  "classify msg =
     (if photo msg then Some (Image, ''jpg'')
      else if video msg then Some (Video, ''mp4'')
      else (case document msg of
              Some mime_type \<Rightarrow>
                if startswith mime_type ''image/''
                then Some (Image, last (str_split CHR ''/'' mime_type))
                else if startswith mime_type ''video/''
                then Some (Video, last (str_split CHR ''/'' mime_type))
                else Some (File, if CHR ''/'' \<in> set mime_type
                                 then last (str_split CHR ''/'' mime_type) else ''bin'')
            | None \<Rightarrow> None))"

type_synonym path = "string list"

text \<open>The names of the two subfolders, as the UTF-8 bytes of the source's literals.\<close>

definition images_name :: string where
  "images_name = [CHR 0xE5, CHR 0x9B, CHR 0xBE, CHR 0xE7, CHR 0x89, CHR 0x87]"

definition videos_name :: string where
  "videos_name = [CHR 0xE8, CHR 0xA7, CHR 0x86, CHR 0xE9, CHR 0xA2, CHR 0x91]"

text \<open>A path is the list of its components; \<open>base_dir / name\<close> appends one.\<close>

definition save_dir_of :: "path \<Rightarrow> kind \<Rightarrow> path" where
  "save_dir_of base_dir k =
     (case k of Image \<Rightarrow> base_dir @ [images_name]
              | Video \<Rightarrow> base_dir @ [videos_name]
              | File \<Rightarrow> base_dir)"

section \<open>The outside world and the trace of a run\<close>

text \<open>
  The calls the downloaders make to the outside: the Telethon client, the file system
  and the clock. The world is a state \<open>'w\<close> that every call may read and change. A call
  that can raise returns \<open>False\<close> (or \<open>None\<close>) when it raises. \<open>get_messages limit\<close> is
  \<open>client.get_messages(entity, limit=limit)\<close>, \<open>mkdir\<close> is
  \<open>Path.mkdir(parents=True, exist_ok=True)\<close>, \<open>time_ms\<close> is \<open>int(time.time() * 1000)\<close>.
\<close>

record 'w env =
  get_entity :: "string \<Rightarrow> 'w \<Rightarrow> bool \<times> 'w"
  get_messages :: "nat \<Rightarrow> 'w \<Rightarrow> message list option \<times> 'w"
  send_message :: "string \<Rightarrow> 'w \<Rightarrow> bool \<times> 'w"
  mkdir :: "path \<Rightarrow> 'w \<Rightarrow> bool \<times> 'w"
  download_media :: "message \<Rightarrow> path \<Rightarrow> 'w \<Rightarrow> bool \<times> 'w"
  time_ms :: "'w \<Rightarrow> int \<times> 'w"
  rename :: "path \<Rightarrow> path \<Rightarrow> 'w \<Rightarrow> bool \<times> 'w"
  click :: "message \<Rightarrow> button \<Rightarrow> 'w \<Rightarrow> bool \<times> 'w"

datatype exn =
    GetEntityError | GetMessagesError | SendMessageError | MkdirError
  | UnicodeDecodeError | ClickError

text \<open>
  The model records the calls it makes, in order, and the failure line that an
  \<open>except\<close> branch prints with the message id (\<open>LogFailed\<close>).
\<close>

datatype event =
    GetMessages nat
  | Mkdir path
  | DownloadMedia message path
  | Rename path path
  | LogFailed int
  | Click message button

type_synonym 'w sys = "'w \<times> event list"

section \<open>Downloading one item\<close>

text \<open>
  The second half of the \<open>try\<close> block, the same text in the three downloaders
  (bot\_downloader, lines 253--272): the temporary name, the transfer, the timestamp and
  the rename. The result is \<open>False\<close> when the transfer or the rename raised.
\<close>

definition save_media ::
  "'w env \<Rightarrow> message \<Rightarrow> path \<Rightarrow> int \<Rightarrow> string \<Rightarrow> 'w sys \<Rightarrow> bool \<times> 'w sys" where
  "save_media c msg save_dir idx ext s =
     (let (w, tr) = s;
          temp_filename = format_03d idx @ ''.'' @ ext;
          temp_filepath = save_dir @ [temp_filename];
          (ok, w) = download_media c msg temp_filepath w;
          tr = tr @ [DownloadMedia msg temp_filepath]
      in if \<not> ok then (False, w, tr)
         else let (timestamp, w) = time_ms c w;
                  new_filename = str_int timestamp @ ''_'' @ temp_filename;
                  new_filepath = save_dir @ [new_filename];
                  (ok, w) = rename c temp_filepath new_filepath w;
                  tr = tr @ [Rename temp_filepath new_filepath]
              in (ok, w, tr))"

text \<open>
  The body of the \<open>for\<close> loop of bot\_downloader's \<open>download_media_messages\<close>
  (lines 215--278): \<open>True\<close> when \<open>downloaded\<close> is incremented. The two subfolders
  exist already, so the save directory is not created here.
\<close>

definition download_item :: "'w env \<Rightarrow> path \<Rightarrow> int \<Rightarrow> message \<Rightarrow> 'w sys \<Rightarrow> bool \<times> 'w sys" where
  "download_item c base_dir idx msg s =
     (case classify msg of
        None \<Rightarrow> (False, s)
      | Some (k, ext) \<Rightarrow>
          let (ok, w, tr) = save_media c msg (save_dir_of base_dir k) idx ext s
          in if ok then (True, w, tr) else (False, w, tr @ [LogFailed (msg_id msg)]))"

text \<open>
  \<open>download_media_from_message\<close> of channel\_comments\_downloader (lines 55--125) and of
  topic\_downloader (lines 54--124), the same text: the save directory is created inside
  the \<open>try\<close>, before the transfer.
\<close>

definition download_media_from_message ::
  "'w env \<Rightarrow> message \<Rightarrow> path \<Rightarrow> int \<Rightarrow> 'w sys \<Rightarrow> bool \<times> 'w sys" where
  "download_media_from_message c message base_dir index s =
     (case classify message of
        None \<Rightarrow> (False, s)
      | Some (k, ext) \<Rightarrow>
          let save_dir = save_dir_of base_dir k;
              (w, tr) = s;
              (ok, w) = mkdir c save_dir w;
              tr = tr @ [Mkdir save_dir]
          in if \<not> ok then (False, w, tr @ [LogFailed (msg_id message)])
             else let (ok, w, tr) = save_media c message save_dir index ext (w, tr)
                  in if ok then (True, w, tr)
                     else (False, w, tr @ [LogFailed (msg_id message)]))"

text \<open>
  The counting loop \<open>for idx, msg in enumerate(msgs, start=idx): if item(idx, msg):
  downloaded += 1\<close>, which the three downloaders run over their sorted media messages.
\<close>

fun count_downloads ::
  "(int \<Rightarrow> message \<Rightarrow> 's \<Rightarrow> bool \<times> 's) \<Rightarrow> int \<Rightarrow> message list \<Rightarrow> int \<Rightarrow> 's \<Rightarrow> int \<times> 's" where
  "count_downloads item idx [] downloaded s = (downloaded, s)"
| "count_downloads item idx (msg # msgs) downloaded s =
     (let (ok, s) = item idx msg s
      in count_downloads item (idx + 1) msgs (if ok then downloaded + 1 else downloaded) s)"

section \<open>The bot flow (bot\_downloader)\<close>

text \<open>
  \<open>download_media_messages\<close> (lines 184--280). The two \<open>mkdir\<close> calls stand outside the
  \<open>try\<close>: when one raises, the function raises (\<open>Inl\<close>).
\<close>

definition download_media_messages ::
  "'w env \<Rightarrow> message list \<Rightarrow> path \<Rightarrow> int \<Rightarrow> 'w sys \<Rightarrow> (exn + int) \<times> 'w sys" where
  "download_media_messages c messages base_dir start_index s =
     (let media_messages = filter (\<lambda>msg. \<not> out msg \<and> has_media msg) messages
      in if media_messages = [] then (Inr 0, s)
         else let media_messages = sort_key msg_id media_messages;
                  images_dir = base_dir @ [images_name];
                  videos_dir = base_dir @ [videos_name];
                  (w, tr) = s;
                  (ok, w) = mkdir c images_dir w;
                  tr = tr @ [Mkdir images_dir]
              in if \<not> ok then (Inl MkdirError, w, tr)
                 else let (ok, w) = mkdir c videos_dir w;
                          tr = tr @ [Mkdir videos_dir]
                      in if \<not> ok then (Inl MkdirError, w, tr)
                         else let (downloaded, s) =
                                    count_downloads (download_item c base_dir)
                                      (start_index + 1) media_messages 0 (w, tr)
                              in (Inr downloaded, s))"

text \<open>The two arrow glyphs of \<open>ARROW_TOKENS\<close>, as the UTF-8 bytes of the source's literals.\<close>

definition ARROW_TOKENS :: "string list" where
  "ARROW_TOKENS =
     [[CHR 0xE2, CHR 0x96, CHR 0xB6, CHR 0xEF, CHR 0xB8, CHR 0x8F],
      [CHR 0xE2, CHR 0x9E, CHR 0xA1, CHR 0xEF, CHR 0xB8, CHR 0x8F]]"

text \<open>
  \<open>btn.data.decode('utf-8')\<close> raises \<open>UnicodeDecodeError\<close> on bytes that are not
  well-formed UTF-8; \<open>utf8_valid\<close> is the test of the strict decoder (no overlong form, no
  surrogate, nothing above U+10FFFF).
\<close>

definition in_range :: "nat \<Rightarrow> nat \<Rightarrow> char \<Rightarrow> bool" where
  "in_range lo hi c = (lo \<le> of_char c \<and> of_char c \<le> hi)"

function utf8_valid :: "string \<Rightarrow> bool" where
  "utf8_valid [] = True"
| "utf8_valid (b # bs) =
     (let n = (of_char b :: nat)
      in if n < 0x80 then utf8_valid bs
         else if 0xC2 \<le> n \<and> n \<le> 0xDF
         then (case bs of
                 c1 # r \<Rightarrow> in_range 0x80 0xBF c1 \<and> utf8_valid (drop 1 bs)
               | _ \<Rightarrow> False)
         else if 0xE0 \<le> n \<and> n \<le> 0xEF
         then (case bs of
                 c1 # c2 # r \<Rightarrow>
                   in_range (if n = 0xE0 then 0xA0 else 0x80) (if n = 0xED then 0x9F else 0xBF) c1
                   \<and> in_range 0x80 0xBF c2 \<and> utf8_valid (drop 2 bs)
               | _ \<Rightarrow> False)
         else if 0xF0 \<le> n \<and> n \<le> 0xF4
         then (case bs of
                 c1 # c2 # c3 # r \<Rightarrow>
                   in_range (if n = 0xF0 then 0x90 else 0x80) (if n = 0xF4 then 0x8F else 0xBF) c1
                   \<and> in_range 0x80 0xBF c2 \<and> in_range 0x80 0xBF c3 \<and> utf8_valid (drop 3 bs)
               | _ \<Rightarrow> False)
         else False)"
  by pat_completeness auto
termination
  by (relation "measure length") auto

text \<open>
  The inner loop of \<open>find_next_page_button\<close> over the buttons of one row, and the outer
  loop over the rows. The pair holds \<open>next_arrow_btn\<close> and \<open>next_page_btn\<close>.
\<close>

fun scan_row ::
  "string \<Rightarrow> button list \<Rightarrow> button option \<times> button option
     \<Rightarrow> exn + (button option \<times> button option)" where
  "scan_row next_page_number [] found = Inr found"
| "scan_row next_page_number (btn # row) (next_arrow_btn, next_page_btn) =
     (case btn_data btn of
        None \<Rightarrow> scan_row next_page_number row (next_arrow_btn, next_page_btn)
      | Some d \<Rightarrow>
          if d = [] then scan_row next_page_number row (next_arrow_btn, next_page_btn)
          else if \<not> utf8_valid d then Inl UnicodeDecodeError
          else if d = ''page_info''
          then scan_row next_page_number row (next_arrow_btn, next_page_btn)
          else if list_ex (contains (btn_text btn)) ARROW_TOKENS
          then scan_row next_page_number row (Some btn, next_page_btn)
          else if contains (btn_text btn) next_page_number
          then scan_row next_page_number row (next_arrow_btn, Some btn)
          else scan_row next_page_number row (next_arrow_btn, next_page_btn))"

fun scan_rows ::
  "string \<Rightarrow> button list list \<Rightarrow> button option \<times> button option
     \<Rightarrow> exn + (button option \<times> button option)" where
  "scan_rows next_page_number [] found = Inr found"
| "scan_rows next_page_number (row # rows) found =
     (case scan_row next_page_number row found of
        Inl e \<Rightarrow> Inl e
      | Inr found \<Rightarrow> scan_rows next_page_number rows found)"

text \<open>
  \<open>find_next_page_button\<close> (lines 283--335). \<open>sorted(..., key=id, reverse=True)\<close> is a
  stable sort by descending id, which is the stable sort by ascending \<open>- id\<close>. The result
  \<open>Inr None\<close> is the source's \<open>(None, None)\<close>.
\<close>

definition find_next_page_button ::
  "message list \<Rightarrow> int \<Rightarrow> exn + (message \<times> button) option" where
  "find_next_page_button messages current_page =
     (let sorted_messages =
            sort_key (\<lambda>m. - msg_id m) (filter (\<lambda>m. \<not> out m \<and> buttons m \<noteq> []) messages)
      in case sorted_messages of
           [] \<Rightarrow> Inr None
         | latest_msg # _ \<Rightarrow>
             (case scan_rows (str_int (current_page + 1)) (buttons latest_msg) (None, None) of
                Inl e \<Rightarrow> Inl e
              | Inr (next_arrow_btn, next_page_btn) \<Rightarrow>
                  (case next_arrow_btn of
                     Some btn \<Rightarrow> Inr (Some (latest_msg, btn))
                   | None \<Rightarrow>
                       (case next_page_btn of
                          Some btn \<Rightarrow> Inr (Some (latest_msg, btn))
                        | None \<Rightarrow> Inr None))))"

text \<open>
  The variables of the \<open>while\<close> loop of \<open>interact_with_bot\<close>, with the world and the trace.
\<close>

record 'w loop_state =
  sys :: "'w sys"
  total_downloaded :: int
  current_page :: int
  downloaded_msg_ids :: "int set"

text \<open>
  How the loop is left: its condition fails (\<open>PageLimit\<close>), one of its two \<open>break\<close>s is
  taken, or a call inside the body raises, which ends \<open>interact_with_bot\<close> as a whole.
\<close>

datatype exit_reason = PageLimit | NoNewMessages | NoNextButton | Raised exn

text \<open>
  One run of the loop body (lines 371--416). The first component is \<open>None\<close> when the body
  reaches its end and the loop goes on, \<open>Some r\<close> when the loop is left.
\<close>

definition page_body ::
  "'w env \<Rightarrow> path \<Rightarrow> int \<Rightarrow> 'w loop_state \<Rightarrow> exit_reason option \<times> 'w loop_state" where
  "page_body c out_dir last_msg_id_before st =
     (let (w, tr) = sys st;
          (fetched, w) = get_messages c 50 w;
          tr = tr @ [GetMessages 50]
      in case fetched of
           None \<Rightarrow> (Some (Raised GetMessagesError), st\<lparr>sys := (w, tr)\<rparr>)
         | Some messages \<Rightarrow>
             let new_messages =
                   filter (\<lambda>msg. last_msg_id_before < msg_id msg
                                  \<and> msg_id msg \<notin> downloaded_msg_ids st) messages
             in if new_messages = [] then (Some NoNewMessages, st\<lparr>sys := (w, tr)\<rparr>)
                else let ids = foldl (\<lambda>ids msg. if has_media msg then insert (msg_id msg) ids
                                                   else ids)
                                 (downloaded_msg_ids st) new_messages;
                         (res, s) = download_media_messages c new_messages out_dir
                                      (total_downloaded st) (w, tr);
                         st = st\<lparr>sys := s, downloaded_msg_ids := ids\<rparr>
                     in case res of
                          Inl e \<Rightarrow> (Some (Raised e), st)
                        | Inr downloaded \<Rightarrow>
                            let st = st\<lparr>total_downloaded := total_downloaded st + downloaded\<rparr>
                            in case find_next_page_button new_messages (current_page st) of
                                 Inl e \<Rightarrow> (Some (Raised e), st)
                               | Inr None \<Rightarrow> (Some NoNextButton, st)
                               | Inr (Some (msg_with_btn, next_btn)) \<Rightarrow>
                                   let (w, tr) = sys st;
                                       (ok, w) = click c msg_with_btn next_btn w;
                                       tr = tr @ [Click msg_with_btn next_btn];
                                       st = st\<lparr>sys := (w, tr)\<rparr>
                                   in if \<not> ok then (Some (Raised ClickError), st)
                                      else (None, st\<lparr>current_page := current_page st + 1\<rparr>))"

text \<open>
  The loop \<open>while unlimited or current_page <= max_pages\<close>. With \<open>max_pages = 0\<close> it may
  run for ever, so the model takes the number of bodies it may run (\<open>fuel\<close>); the first
  component of the result is \<open>None\<close> when the loop is still running after that many
  bodies, and the state is the one reached.
\<close>

fun page_loop ::
  "nat \<Rightarrow> 'w env \<Rightarrow> path \<Rightarrow> int \<Rightarrow> int \<Rightarrow> 'w loop_state
     \<Rightarrow> exit_reason option \<times> 'w loop_state" where
  "page_loop fuel c out_dir max_pages last_msg_id_before st =
     (if max_pages = 0 \<or> current_page st \<le> max_pages
      then (case fuel of
              0 \<Rightarrow> (None, st)
            | Suc fuel \<Rightarrow>
                (case page_body c out_dir last_msg_id_before st of
                   (Some r, st) \<Rightarrow> (Some r, st)
                 | (None, st) \<Rightarrow> page_loop fuel c out_dir max_pages last_msg_id_before st))
      else (Some PageLimit, st))"

declare page_loop.simps [simp del]

text \<open>
  \<open>interact_with_bot\<close> (lines 338--431): the bot is resolved, the id of the latest
  message is taken as the watermark, the start command is sent, and the loop runs. The
  two \<open>asyncio.sleep\<close> calls change nothing the model holds.
\<close>

definition interact_with_bot ::
  "nat \<Rightarrow> 'w env \<Rightarrow> string \<Rightarrow> string \<Rightarrow> path \<Rightarrow> int \<Rightarrow> 'w
     \<Rightarrow> exit_reason option \<times> 'w loop_state" where
  "interact_with_bot fuel c bot_username start_param out_dir max_pages w =
     (let st = \<lparr>sys = (w, []), total_downloaded = 0, current_page = 1,
                downloaded_msg_ids = {}\<rparr>;
          (ok, w) = get_entity c bot_username w
      in if \<not> ok then (Some (Raised GetEntityError), st\<lparr>sys := (w, [])\<rparr>)
         else let (old_messages, w) = get_messages c 1 w;
                  tr = [GetMessages 1]
              in case old_messages of
                   None \<Rightarrow> (Some (Raised GetMessagesError), st\<lparr>sys := (w, tr)\<rparr>)
                 | Some old_messages \<Rightarrow>
                     let last_msg_id_before =
                           (case old_messages of [] \<Rightarrow> 0 | m # _ \<Rightarrow> msg_id m);
                         (ok, w) = send_message c (''/start '' @ start_param) w
                     in if \<not> ok then (Some (Raised SendMessageError), st\<lparr>sys := (w, tr)\<rparr>)
                        else page_loop fuel c out_dir max_pages last_msg_id_before
                               (st\<lparr>sys := (w, tr)\<rparr>))"

text \<open>The messages handed to \<open>download_media\<close>, and the number of loop bodies run.\<close>

fun downloads :: "event list \<Rightarrow> message list" where
  "downloads [] = []"
| "downloads (DownloadMedia msg p # tr) = msg # downloads tr"
| "downloads (e # tr) = downloads tr"

definition pages :: "event list \<Rightarrow> nat" where
  "pages tr = length (filter (\<lambda>e. e = GetMessages 50) tr)"

section \<open>The comment flow and the topic flow\<close>



section \<open>Links\<close>












section \<open>The choice of the next-page button, as the specification words it\<close>

text \<open>
  A button qualifies when it has a callback token that is not empty and is not
  \<open>page_info\<close>. Among the qualifying buttons, one whose label holds an arrow glyph is
  preferred, then one whose label holds the next page number; of several, the last is
  taken. A token that is not well-formed UTF-8 cannot be decoded.
\<close>

definition undecodable :: "button \<Rightarrow> bool" where
  "undecodable b = (case btn_data b of None \<Rightarrow> False | Some d \<Rightarrow> d \<noteq> [] \<and> \<not> utf8_valid d)"

definition qualifying :: "button \<Rightarrow> bool" where
  "qualifying b = (case btn_data b of None \<Rightarrow> False | Some d \<Rightarrow> d \<noteq> [] \<and> d \<noteq> ''page_info'')"

definition has_arrow :: "button \<Rightarrow> bool" where
  "has_arrow b = list_ex (\<lambda>tok. sublist tok (btn_text b)) ARROW_TOKENS"

definition choose_button :: "string \<Rightarrow> button list \<Rightarrow> button option" where
  "choose_button next_page_number bs =
     (let qs = filter qualifying bs;
          arrows = filter has_arrow qs;
          numbers = filter (\<lambda>b. \<not> has_arrow b \<and> sublist next_page_number (btn_text b)) qs
      in if arrows \<noteq> [] then Some (last arrows)
         else if numbers \<noteq> [] then Some (last numbers)
         else None)"

definition pick :: "button list \<Rightarrow> button option \<Rightarrow> button option" where
  "pick bs found = (if bs = [] then found else Some (last bs))"

section \<open>Example data\<close>

definition arrow_btn :: button where
  "arrow_btn = \<lparr>btn_text = [CHR 0xE2, CHR 0x96, CHR 0xB6, CHR 0xEF, CHR 0xB8, CHR 0x8F],
                 btn_data = Some ''next''\<rparr>"

definition page_btns :: "button list" where
  "page_btns = [\<lparr>btn_text = ''1/3'', btn_data = Some ''page_info''\<rparr>,
                \<lparr>btn_text = ''2'', btn_data = Some ''goto_2''\<rparr>,
                \<lparr>btn_text = ''site'', btn_data = None\<rparr>]"

definition bot_msg :: "int \<Rightarrow> bool \<Rightarrow> button list list \<Rightarrow> message" where
  "bot_msg i outbound bs = \<lparr>msg_id = i, out = outbound, photo = False, video = False,
                            document = None, buttons = bs\<rparr>"

section \<open>Reading a trace\<close>

text \<open>The directories created and the message ids of the failure lines, in order.\<close>

fun mkdirs :: "event list \<Rightarrow> path list" where
  "mkdirs [] = []"
| "mkdirs (Mkdir p # tr) = p # mkdirs tr"
| "mkdirs (e # tr) = mkdirs tr"

fun failures :: "event list \<Rightarrow> int list" where
  "failures [] = []"
| "failures (LogFailed i # tr) = i # failures tr"
| "failures (e # tr) = failures tr"

text \<open>
  The kind and the extension that \<open>classify\<close> gives a media message, the temporary file
  name of an item, and the pairs that \<open>enumerate(msgs, start=i)\<close> yields.
\<close>

definition kind_of :: "message \<Rightarrow> kind" where
  "kind_of msg = (case classify msg of Some (k, ext) \<Rightarrow> k | None \<Rightarrow> File)"

definition ext_of :: "message \<Rightarrow> string" where
  "ext_of msg = (case classify msg of Some (k, ext) \<Rightarrow> ext | None \<Rightarrow> [])"

definition temp_path :: "path \<Rightarrow> int \<Rightarrow> message \<Rightarrow> path" where
  "temp_path base_dir idx msg =
     save_dir_of base_dir (kind_of msg) @ [format_03d idx @ ''.'' @ ext_of msg]"

fun enumerate_from :: "int \<Rightarrow> 'a list \<Rightarrow> (int \<times> 'a) list" where
  "enumerate_from i [] = []"
| "enumerate_from i (x # xs) = (i, x) # enumerate_from (i + 1) xs"

text \<open>The calls of \<open>download_media\<close>: the message and the temporary path of each.\<close>

fun attempts :: "event list \<Rightarrow> (message \<times> path) list" where
  "attempts [] = []"
| "attempts (DownloadMedia msg p # tr) = (msg, p) # attempts tr"
| "attempts (e # tr) = attempts tr"

section \<open>Example worlds\<close>

text \<open>
  A world that serves the given pages of messages, one for each \<open>get_messages\<close> call,
  and in which every call succeeds, but the transfer of the messages whose ids are listed
  in \<open>failing\<close>.
\<close>

definition script_env :: "int list \<Rightarrow> (message list list) env" where
  "script_env failing =
     \<lparr>get_entity = (\<lambda>name w. (True, w)),
      get_messages = (\<lambda>limit w. case w of [] \<Rightarrow> (Some [], []) | page # rest \<Rightarrow> (Some page, rest)),
      send_message = (\<lambda>line w. (True, w)),
      mkdir = (\<lambda>p w. (True, w)),
      download_media = (\<lambda>msg p w. (msg_id msg \<notin> set failing, w)),
      time_ms = (\<lambda>w. (1700, w)),
      rename = (\<lambda>p q w. (True, w)),
      click = (\<lambda>msg btn w. (True, w))\<rparr>"

definition photo_msg :: "int \<Rightarrow> bool \<Rightarrow> button list list \<Rightarrow> message" where
  "photo_msg i outbound bs = \<lparr>msg_id = i, out = outbound, photo = True, video = False,
                              document = None, buttons = bs\<rparr>"



text \<open>
  The events of a download: creating a directory, a transfer, a rename, a failure line.
  The other events are the calls of the page loop.
\<close>

fun is_transfer_event :: "event \<Rightarrow> bool" where
  "is_transfer_event (GetMessages limit) = False"
| "is_transfer_event (Click msg btn) = False"
| "is_transfer_event e = True"

text \<open>The messages whose buttons were clicked.\<close>

fun clicks :: "event list \<Rightarrow> message list" where
  "clicks [] = []"
| "clicks (Click msg btn # tr) = msg # clicks tr"
| "clicks (e # tr) = clicks tr"

text \<open>
  A bot that answers every click with a new photo and a next-page button: the answer to
  the fetch before the command, then three pages.
\<close>

definition endless_pages :: "message list list" where
  "endless_pages =
     [[bot_msg 5 False []],
      [photo_msg 7 False [[arrow_btn]], bot_msg 6 True []],
      [photo_msg 8 False [[arrow_btn]], photo_msg 7 False [[arrow_btn]], bot_msg 6 True []],
      [photo_msg 9 False [[arrow_btn]], photo_msg 8 False [[arrow_btn]],
       photo_msg 7 False [[arrow_btn]], bot_msg 6 True []]]"

section \<open>The outcome of every item of a batch\<close>

text \<open>
  The final path of an item renamed at the time \<open>timestamp\<close>, and the outcomes of the
  items of a batch, in order: each item is processed in the world that the item before
  it left, whatever its outcome was.
\<close>

definition final_path :: "path \<Rightarrow> int \<Rightarrow> int \<Rightarrow> message \<Rightarrow> path" where
  "final_path base_dir idx timestamp msg =
     save_dir_of base_dir (kind_of msg)
       @ [str_int timestamp @ ''_'' @ format_03d idx @ ''.'' @ ext_of msg]"

fun item_results ::
  "(int \<Rightarrow> message \<Rightarrow> 's \<Rightarrow> bool \<times> 's) \<Rightarrow> int \<Rightarrow> message list \<Rightarrow> 's \<Rightarrow> (message \<times> bool) list" where
  "item_results item idx [] s = []"
| "item_results item idx (msg # msgs) s =
     (msg, fst (item idx msg s)) # item_results item (idx + 1) msgs (snd (item idx msg s))"

text \<open>A world in which every rename fails, and one in which every click fails.\<close>

definition rename_fails_env :: "(message list list) env" where
  "rename_fails_env = (script_env [])\<lparr>rename := (\<lambda>p q w. (False, w))\<rparr>"

definition click_fails_env :: "(message list list) env" where
  "click_fails_env = (script_env [])\<lparr>click := (\<lambda>msg btn w. (False, w))\<rparr>"

section \<open>Properties of the text functions\<close>

lemma startswith_prefix: "startswith s p = prefix p s"
  by (induction s p rule: startswith.induct) auto

lemma contains_sublist: "contains s sub = sublist sub s"
proof (induction s)
  case Nil
  then show ?case by auto
next
  case (Cons c s)
  then show ?case
    by (cases sub) (auto simp: startswith_prefix sublist_Cons_right)
qed

lemma str_split_not_Nil: "str_split sep s \<noteq> []"
  by (induction s) (auto split: list.splits)

lemma str_split_no_sep: "sep \<notin> set s \<Longrightarrow> str_split sep s = [s]"
  by (induction s) auto

lemma length_str_split: "length (str_split sep s) = Suc (length (filter (\<lambda>c. c = sep) s))"
  by (induction s) (auto split: list.splits)

lemma last_str_split_append:
  "last (str_split sep (pre @ sep # s)) = last (str_split sep s)"
proof (induction pre)
  case Nil
  then show ?case by (simp add: str_split_not_Nil)
next
  case (Cons c pre)
  have "2 \<le> length (str_split sep (pre @ sep # s))"
    by (simp add: length_str_split)
  then obtain p q ps where "str_split sep (pre @ sep # s) = p # q # ps"
    by (cases "str_split sep (pre @ sep # s)" rule: list.exhaust)
       (auto simp: Suc_le_eq neq_Nil_conv numeral_2_eq_2)
  with Cons show ?case by auto
qed

lemma last_str_split: "sep \<notin> set sub \<Longrightarrow> last (str_split sep (pre @ sep # sub)) = sub"
  by (simp add: last_str_split_append str_split_no_sep)

section \<open>Classification\<close>

text \<open>
  C3. A message with a document and neither photo nor video is classified by the
  document's MIME type: the kind is Image when the type starts with \<open>image/\<close>, Video when
  it starts with \<open>video/\<close>, File otherwise; the extension is the subtype (the text after the
  last \<open>/\<close>), and \<open>bin\<close> when the type has no \<open>/\<close>. The type \<open>video/webm\<close> gives Video with
  extension \<open>webm\<close>, and a Video is saved in the video subfolder.
\<close>

theorem classify_document:
  assumes "\<not> photo msg" and "\<not> video msg" and "document msg = Some mime"
  shows "(\<forall>pre sub. mime = pre @ ''/'' @ sub \<longrightarrow> CHR ''/'' \<notin> set sub \<longrightarrow>
            classify msg =
              Some (if prefix ''image/'' mime then Image
                    else if prefix ''video/'' mime then Video else File, sub))
       \<and> (CHR ''/'' \<notin> set mime \<longrightarrow> classify msg = Some (File, ''bin''))
       \<and> (mime = ''video/webm'' \<longrightarrow>
            classify msg = Some (Video, ''webm'')
            \<and> save_dir_of base_dir Video = base_dir @ [videos_name])"
proof (intro conjI allI impI)
  fix pre sub
  assume m: "mime = pre @ ''/'' @ sub" and s: "CHR ''/'' \<notin> set sub"
  from s have "last (str_split CHR ''/'' (pre @ CHR ''/'' # sub)) = sub"
    by (rule last_str_split)
  with m assms show "classify msg =
      Some (if prefix ''image/'' mime then Image
            else if prefix ''video/'' mime then Video else File, sub)"
    by (simp add: classify_def startswith_prefix)
next
  assume "CHR ''/'' \<notin> set mime"
  moreover from this have "\<not> prefix ''image/'' mime" and "\<not> prefix ''video/'' mime"
    by (auto simp: prefix_def)
  ultimately show "classify msg = Some (File, ''bin'')"
    using assms by (simp add: classify_def startswith_prefix)
next
  assume "mime = ''video/webm''"
  with assms show "classify msg = Some (Video, ''webm'')"
    by (simp add: classify_def)
next
  show "save_dir_of base_dir Video = base_dir @ [videos_name]"
    by (simp add: save_dir_of_def)
qed

theorem classify_document_witness:
  "classify \<lparr>msg_id = 7, out = False, photo = False, video = False,
             document = Some ''application/pdf'', buttons = []\<rparr> = Some (File, ''pdf'')
   \<and> classify \<lparr>msg_id = 8, out = False, photo = False, video = False,
               document = Some ''image/png'', buttons = []\<rparr> = Some (Image, ''png'')
   \<and> classify \<lparr>msg_id = 9, out = False, photo = False, video = False,
               document = Some ''video/webm'', buttons = []\<rparr> = Some (Video, ''webm'')
   \<and> classify \<lparr>msg_id = 10, out = False, photo = False, video = False,
               document = Some ''binary'', buttons = []\<rparr> = Some (File, ''bin'')"
proof -
  let ?m = "\<lambda>i mime. \<lparr>msg_id = i, out = False, photo = False, video = False,
                        document = Some mime, buttons = []\<rparr>"
  have a: "classify (?m 7 ''application/pdf'') = Some (File, ''pdf'')"
    using classify_document [of "?m 7 ''application/pdf''" "''application/pdf''" "[]",
        THEN conjunct1, THEN spec, THEN spec, of "''application''" "''pdf''"]
    by simp
  have b: "classify (?m 8 ''image/png'') = Some (Image, ''png'')"
    using classify_document [of "?m 8 ''image/png''" "''image/png''" "[]",
        THEN conjunct1, THEN spec, THEN spec, of "''image''" "''png''"]
    by simp
  have c: "classify (?m 9 ''video/webm'') = Some (Video, ''webm'')"
    using classify_document [of "?m 9 ''video/webm''" "''video/webm''" "[]",
        THEN conjunct2, THEN conjunct2]
    by simp
  have d: "classify (?m 10 ''binary'') = Some (File, ''bin'')"
    using classify_document [of "?m 10 ''binary''" "''binary''" "[]",
        THEN conjunct2, THEN conjunct1]
    by simp
  from a b c d show ?thesis by simp
qed

section \<open>Byte sizes\<close>

lemma format_bytes_unfold:
  "format_bytes x =
     (if x < 1024 then format_2f x @ ''B''
      else if x < 1024^2 then format_2f (x / 1024) @ ''KB''
      else if x < 1024^3 then format_2f (x / 1024^2) @ ''MB''
      else if x < 1024^4 then format_2f (x / 1024^3) @ ''GB''
      else format_2f (x / 1024^4) @ ''TB'')"
proof -
  have lt: "x / 1024 < 1024 \<longleftrightarrow> x < 1024^2" "x / 1024^2 < 1024 \<longleftrightarrow> x < 1024^3"
    "x / 1024^3 < 1024 \<longleftrightarrow> x < 1024^4"
    by (simp_all add: field_simps)
  have dv: "x / 1024 / 1024 = x / 1024^2" "x / 1024^2 / 1024 = x / 1024^3"
    "x / 1024^3 / 1024 = x / 1024^4"
    by simp_all
  have "format_bytes x =
     (if x < 1024 then format_2f x @ ''B''
      else if x / 1024 < 1024 then format_2f (x / 1024) @ ''KB''
      else if x / 1024 / 1024 < 1024 then format_2f (x / 1024 / 1024) @ ''MB''
      else if x / 1024 / 1024 / 1024 < 1024 then format_2f (x / 1024 / 1024 / 1024) @ ''GB''
      else format_2f (x / 1024 / 1024 / 1024 / 1024) @ ''TB'')"
    by (simp only: format_bytes_def format_units.simps)
  then show ?thesis
    by (simp only: lt dv)
qed

text \<open>
  C5. The byte-size formatter gives \<open>1023.00B\<close> for 1023, \<open>1.00KB\<close> for 1024 and
  \<open>1.00MB\<close> for 1048576; the unit changes at each power of 1024, and the value, divided by
  that power, is printed with two decimals over the units B, KB, MB, GB, TB.
\<close>

theorem format_bytes_units:
  "format_bytes 1023 = ''1023.00B'' \<and> format_bytes 1024 = ''1.00KB''
   \<and> format_bytes 1048576 = ''1.00MB''
   \<and> format_bytes x =
     (if x < 1024 then format_2f x @ ''B''
      else if x < 1024^2 then format_2f (x / 1024) @ ''KB''
      else if x < 1024^3 then format_2f (x / 1024^2) @ ''MB''
      else if x < 1024^4 then format_2f (x / 1024^3) @ ''GB''
      else format_2f (x / 1024^4) @ ''TB'')"
proof (intro conjI)
  show "format_bytes 1023 = ''1023.00B''"
    by (simp add: format_bytes_def format_2f_def round_half_even_def str_nat.simps
        digit_char_def Let_def)
  show "format_bytes 1024 = ''1.00KB''"
    by (simp add: format_bytes_def format_2f_def round_half_even_def str_nat.simps
        digit_char_def Let_def)
  show "format_bytes 1048576 = ''1.00MB''"
    by (simp add: format_bytes_def format_2f_def round_half_even_def str_nat.simps
        digit_char_def Let_def)
qed (rule format_bytes_unfold)

theorem format_bytes_units_witness: "format_bytes 1536 = ''1.50KB''"
  using format_bytes_units [of 1536]
  by (simp add: format_2f_def round_half_even_def str_nat.simps digit_char_def Let_def)

section \<open>Links\<close>













section \<open>The next-page button\<close>

lemma pick_Nil [simp]: "pick [] found = found"
  by (simp add: pick_def)

lemma pick_Cons: "pick (b # bs) found = pick bs (Some b)"
  by (simp add: pick_def)

lemma scan_row_eq:
  "scan_row npn row (a, p) =
     (if list_ex undecodable row then Inl UnicodeDecodeError
      else Inr (pick (filter has_arrow (filter qualifying row)) a,
                pick (filter (\<lambda>b. \<not> has_arrow b \<and> sublist npn (btn_text b))
                        (filter qualifying row)) p))"
proof (induction row arbitrary: a p)
  case Nil
  then show ?case by simp
next
  case (Cons b row)
  show ?case
  proof (cases "btn_data b")
    case None
    then show ?thesis
      by (simp add: Cons undecodable_def qualifying_def)
  next
    case (Some d)
    then show ?thesis
      by (simp add: Cons undecodable_def qualifying_def has_arrow_def contains_sublist
          pick_Cons list_ex_iff)
  qed
qed

lemma scan_rows_eq:
  "scan_rows npn rows (a, p) =
     (if list_ex undecodable (concat rows) then Inl UnicodeDecodeError
      else Inr (pick (filter has_arrow (filter qualifying (concat rows))) a,
                pick (filter (\<lambda>b. \<not> has_arrow b \<and> sublist npn (btn_text b))
                        (filter qualifying (concat rows))) p))"
proof (induction rows arbitrary: a p)
  case Nil
  then show ?case by simp
next
  case (Cons row rows)
  show ?case
    by (auto simp: scan_row_eq Cons pick_def list_ex_iff)
qed

lemma scan_rows_choose:
  "scan_rows npn rows (None, None) = Inr (a, p) \<Longrightarrow>
   (case a of Some btn \<Rightarrow> Some btn | None \<Rightarrow> (case p of Some btn \<Rightarrow> Some btn | None \<Rightarrow> None))
     = choose_button npn (concat rows)"
  by (auto simp: scan_rows_eq choose_button_def pick_def Let_def split: if_splits)

lemma sort_key_head:
  assumes "sort_key f xs = y # ys"
  shows "y \<in> set xs \<and> (\<forall>x\<in>set xs. f y \<le> f x)"
proof -
  have "sorted (map f (y # ys))" and "set (y # ys) = set xs"
    using assms sorted_sort_key [of f xs] set_sort [of f xs] by simp_all
  then show ?thesis by auto
qed

text \<open>
  C6 (as amended). \<open>find_next_page_button\<close> looks only at the buttons of the most recent
  message that is not outbound and has buttons; the buttons of every other message are
  ignored. Of these buttons it leaves out those tagged \<open>page_info\<close> and those without a
  callback token; it takes a button whose label holds an arrow glyph, otherwise a button
  whose label holds the next page number, and returns no button when there is neither.
  When a callback token of that message is not well-formed UTF-8, decoding it raises.
\<close>

theorem find_next_page_button_choice:
  "((\<forall>m\<in>set messages. out m \<or> buttons m = []) \<longrightarrow>
      find_next_page_button messages page = Inr None)
   \<and> ((\<exists>m\<in>set messages. \<not> out m \<and> buttons m \<noteq> []) \<longrightarrow>
      (\<exists>latest\<in>set messages. \<not> out latest \<and> buttons latest \<noteq> []
         \<and> (\<forall>m\<in>set messages. \<not> out m \<and> buttons m \<noteq> [] \<longrightarrow> msg_id m \<le> msg_id latest)
         \<and> find_next_page_button messages page =
             (if list_ex undecodable (concat (buttons latest)) then Inl UnicodeDecodeError
              else Inr (map_option (Pair latest)
                          (choose_button (str_int (page + 1))
                             (concat (buttons latest)))))))"
proof (intro conjI impI)
  assume "\<forall>m\<in>set messages. out m \<or> buttons m = []"
  then have "filter (\<lambda>m. \<not> out m \<and> buttons m \<noteq> []) messages = []"
    by (auto simp: filter_empty_conv)
  then show "find_next_page_button messages page = Inr None"
    by (simp add: find_next_page_button_def)
next
  let ?cands = "filter (\<lambda>m. \<not> out m \<and> buttons m \<noteq> []) messages"
  let ?npn = "str_int (page + 1)"
  assume "\<exists>m\<in>set messages. \<not> out m \<and> buttons m \<noteq> []"
  then have "?cands \<noteq> []"
    by (auto simp: filter_empty_conv)
  moreover have "length (sort_key (\<lambda>m. - msg_id m) ?cands) = length ?cands"
    by (rule length_sort)
  ultimately have "sort_key (\<lambda>m. - msg_id m) ?cands \<noteq> []"
    by (metis length_0_conv)
  then obtain latest rest where s: "sort_key (\<lambda>m. - msg_id m) ?cands = latest # rest"
    by (cases "sort_key (\<lambda>m. - msg_id m) ?cands") auto
  from sort_key_head [OF s]
  have l: "latest \<in> set messages" "\<not> out latest" "buttons latest \<noteq> []"
    and mx: "\<forall>m\<in>set messages. \<not> out m \<and> buttons m \<noteq> [] \<longrightarrow> msg_id m \<le> msg_id latest"
    by auto
  have "find_next_page_button messages page =
      (if list_ex undecodable (concat (buttons latest)) then Inl UnicodeDecodeError
       else Inr (map_option (Pair latest) (choose_button ?npn (concat (buttons latest)))))"
  proof (cases "scan_rows ?npn (buttons latest) (None, None)")
    case (Inl e)
    then show ?thesis
      using s by (simp add: find_next_page_button_def scan_rows_eq split: if_splits)
  next
    case (Inr found)
    obtain a p where f: "found = (a, p)" by (cases found)
    from Inr f have nb: "\<not> list_ex undecodable (concat (buttons latest))"
      by (simp add: scan_rows_eq split: if_splits)
    from scan_rows_choose [of ?npn "buttons latest" a p] Inr f
    have "choose_button ?npn (concat (buttons latest)) =
        (case a of Some btn \<Rightarrow> Some btn
         | None \<Rightarrow> (case p of Some btn \<Rightarrow> Some btn | None \<Rightarrow> None))"
      by simp
    with Inr f nb s show ?thesis
      by (simp add: find_next_page_button_def split: option.splits)
  qed
  with l mx show "\<exists>latest\<in>set messages. \<not> out latest \<and> buttons latest \<noteq> []
         \<and> (\<forall>m\<in>set messages. \<not> out m \<and> buttons m \<noteq> [] \<longrightarrow> msg_id m \<le> msg_id latest)
         \<and> find_next_page_button messages page =
             (if list_ex undecodable (concat (buttons latest)) then Inl UnicodeDecodeError
              else Inr (map_option (Pair latest)
                          (choose_button (str_int (page + 1))
                             (concat (buttons latest)))))"
    by (intro bexI [of _ latest]) simp_all
qed

theorem find_next_page_button_choice_witness:
  "find_next_page_button
     [bot_msg 11 False [page_btns, [arrow_btn]], bot_msg 10 False [[arrow_btn]]] 1
   = Inr (Some (bot_msg 11 False [page_btns, [arrow_btn]], arrow_btn))
   \<and> find_next_page_button [bot_msg 10 False [[arrow_btn]], bot_msg 11 False [page_btns]] 1
     = Inr (Some (bot_msg 11 False [page_btns], \<lparr>btn_text = ''2'', btn_data = Some ''goto_2''\<rparr>))
   \<and> find_next_page_button [bot_msg 10 False [[arrow_btn]], bot_msg 11 False [page_btns]] 2
     = Inr None"
proof -
  have a: "find_next_page_button
      [bot_msg 11 False [page_btns, [arrow_btn]], bot_msg 10 False [[arrow_btn]]] 1
    = Inr (Some (bot_msg 11 False [page_btns, [arrow_btn]], arrow_btn))"
    by code_simp
  have b: "find_next_page_button [bot_msg 10 False [[arrow_btn]], bot_msg 11 False [page_btns]] 1
    = Inr (Some (bot_msg 11 False [page_btns], \<lparr>btn_text = ''2'', btn_data = Some ''goto_2''\<rparr>))"
    by code_simp
  have c: "find_next_page_button [bot_msg 10 False [[arrow_btn]], bot_msg 11 False [page_btns]] 2
    = Inr None"
    by code_simp
  show ?thesis
    using a b c
      find_next_page_button_choice
        [of "[bot_msg 11 False [page_btns, [arrow_btn]], bot_msg 10 False [[arrow_btn]]]" 1]
    by simp
qed

text \<open>
  The most recent message with buttons (id 12) is outbound: its buttons are passed over,
  and the arrow button of the older message (id 11) is returned.
\<close>

theorem find_next_page_button_skips_outbound:
  "find_next_page_button
     [bot_msg 12 True [[\<lparr>btn_text = ''site'', btn_data = None\<rparr>]], bot_msg 11 False [[arrow_btn]]] 1
   = Inr (Some (bot_msg 11 False [[arrow_btn]], arrow_btn))
   \<and> msg_id (bot_msg 11 False [[arrow_btn]])
       < msg_id (bot_msg 12 True [[\<lparr>btn_text = ''site'', btn_data = None\<rparr>]])
   \<and> buttons (bot_msg 12 True [[\<lparr>btn_text = ''site'', btn_data = None\<rparr>]]) \<noteq> []"
proof -
  have "find_next_page_button
     [bot_msg 12 True [[\<lparr>btn_text = ''site'', btn_data = None\<rparr>]], bot_msg 11 False [[arrow_btn]]] 1
   = Inr (Some (bot_msg 11 False [[arrow_btn]], arrow_btn))"
    by code_simp
  then show ?thesis
    by (simp add: bot_msg_def)
qed

section \<open>Traces of the download functions\<close>

lemma downloads_append [simp]: "downloads (tr @ tr') = downloads tr @ downloads tr'"
  by (induction tr rule: downloads.induct) auto

lemma mkdirs_append [simp]: "mkdirs (tr @ tr') = mkdirs tr @ mkdirs tr'"
  by (induction tr rule: mkdirs.induct) auto

lemma failures_append [simp]: "failures (tr @ tr') = failures tr @ failures tr'"
  by (induction tr rule: failures.induct) auto

lemma attempts_append [simp]: "attempts (tr @ tr') = attempts tr @ attempts tr'"
  by (induction tr rule: attempts.induct) auto

lemma downloads_attempts: "downloads tr = map fst (attempts tr)"
  by (induction tr rule: attempts.induct) auto

lemma has_media_classify: "has_media msg \<longleftrightarrow> classify msg \<noteq> None"
  by (auto simp: has_media_def classify_def split: option.splits)

text \<open>What one call of \<open>save_media\<close> adds to the trace.\<close>

lemma save_media_trace:
  assumes "save_media c msg dir idx ext (w, tr) = (ok, w', tr')"
  shows "\<exists>tr2. tr' = tr @ DownloadMedia msg (dir @ [format_03d idx @ ''.'' @ ext]) # tr2
               \<and> attempts tr2 = [] \<and> mkdirs tr2 = [] \<and> failures tr2 = []"
  using assms
  by (auto simp: save_media_def Let_def split: prod.splits if_splits)

lemma download_item_trace:
  assumes "download_item c base_dir idx msg (w, tr) = (ok, w', tr')"
    and "classify msg = Some (k, ext)"
  shows "\<exists>tr2. tr' = tr @ DownloadMedia msg (save_dir_of base_dir k @ [format_03d idx @ ''.'' @ ext]) # tr2
               \<and> attempts tr2 = [] \<and> mkdirs tr2 = []
               \<and> failures tr2 = (if ok then [] else [msg_id msg])"
proof -
  obtain ok1 w1 tr1 where s: "save_media c msg (save_dir_of base_dir k) idx ext (w, tr) = (ok1, w1, tr1)"
    by (cases "save_media c msg (save_dir_of base_dir k) idx ext (w, tr)") auto
  from save_media_trace [OF s] obtain tr2 where
    t: "tr1 = tr @ DownloadMedia msg (save_dir_of base_dir k @ [format_03d idx @ ''.'' @ ext]) # tr2"
       "attempts tr2 = []" "mkdirs tr2 = []" "failures tr2 = []"
    by blast
  from assms s have "ok = ok1" and "tr' = (if ok1 then tr1 else tr1 @ [LogFailed (msg_id msg)])"
    by (auto simp: download_item_def split: if_splits)
  with t show ?thesis
    by (cases ok1) auto
qed

lemma download_media_from_message_trace:
  assumes "download_media_from_message c msg base_dir idx (w, tr) = (ok, w', tr')"
    and "classify msg = Some (k, ext)"
  shows "\<exists>tr2. tr' = tr @ Mkdir (save_dir_of base_dir k) # tr2
               \<and> mkdirs tr2 = []
               \<and> attempts tr2 =
                   (if fst (mkdir c (save_dir_of base_dir k) w)
                    then [(msg, save_dir_of base_dir k @ [format_03d idx @ ''.'' @ ext])] else [])
               \<and> failures tr2 = (if ok then [] else [msg_id msg])"
proof -
  obtain mk w0 where m: "mkdir c (save_dir_of base_dir k) w = (mk, w0)"
    by (cases "mkdir c (save_dir_of base_dir k) w") auto
  show ?thesis
  proof (cases mk)
    case False
    with assms m show ?thesis
      by (auto simp: download_media_from_message_def Let_def)
  next
    case True
    obtain ok1 w1 tr1 where s: "save_media c msg (save_dir_of base_dir k) idx ext
        (w0, tr @ [Mkdir (save_dir_of base_dir k)]) = (ok1, w1, tr1)"
      by (cases "save_media c msg (save_dir_of base_dir k) idx ext
        (w0, tr @ [Mkdir (save_dir_of base_dir k)])") auto
    from save_media_trace [OF s] obtain tr2 where
      t: "tr1 = (tr @ [Mkdir (save_dir_of base_dir k)])
            @ DownloadMedia msg (save_dir_of base_dir k @ [format_03d idx @ ''.'' @ ext]) # tr2"
         "attempts tr2 = []" "mkdirs tr2 = []" "failures tr2 = []"
      by blast
    from assms m True s have "ok = ok1"
      and "tr' = (if ok1 then tr1 else tr1 @ [LogFailed (msg_id msg)])"
      by (auto simp: download_media_from_message_def Let_def split: if_splits)
    with t m True show ?thesis
      by (cases ok1) auto
  qed
qed

text \<open>
  The counting loop, for any loop body: what a projection of the trace gains, and how
  the count and the failure lines account for every item.
\<close>

lemma count_downloads_proj:
  fixes item :: "int \<Rightarrow> message \<Rightarrow> 'w sys \<Rightarrow> bool \<times> 'w sys"
  assumes app: "\<And>tr tr'. proj (tr @ tr') = proj tr @ proj tr'"
    and step: "\<And>idx msg s. msg \<in> set msgs \<Longrightarrow>
      proj (snd (snd (item idx msg s))) = proj (snd s) @ contrib idx msg"
  shows "proj (snd (snd (count_downloads item idx msgs d s))) =
           proj (snd s) @ concat (map (\<lambda>(i, m). contrib i m) (enumerate_from idx msgs))"
  using step
proof (induction msgs arbitrary: idx d s)
  case Nil
  then show ?case by simp
next
  case (Cons msg msgs)
  obtain ok s1 where i: "item idx msg s = (ok, s1)"
    by (cases "item idx msg s") auto
  have "proj (snd s1) = proj (snd s) @ contrib idx msg"
    using Cons.prems [of msg idx s] i by simp
  moreover have "proj (snd (snd (count_downloads item (idx + 1) msgs
        (if ok then d + 1 else d) s1))) =
      proj (snd s1) @ concat (map (\<lambda>(i, m). contrib i m) (enumerate_from (idx + 1) msgs))"
    by (rule Cons.IH) (simp add: Cons.prems)
  ultimately show ?case
    using i by simp
qed

lemma count_downloads_failures:
  fixes item :: "int \<Rightarrow> message \<Rightarrow> 'w sys \<Rightarrow> bool \<times> 'w sys"
  assumes step: "\<And>idx msg s ok s'. msg \<in> set msgs \<Longrightarrow> item idx msg s = (ok, s') \<Longrightarrow>
      failures (snd s') = failures (snd s) @ (if ok then [] else [msg_id msg])"
    and run: "count_downloads item idx msgs d s = (d', s')"
  shows "\<exists>failed. subseq failed msgs
           \<and> failures (snd s') = failures (snd s) @ map msg_id failed
           \<and> d' + int (length failed) = d + int (length msgs)"
  using step run
proof (induction msgs arbitrary: idx d s)
  case Nil
  then show ?case by simp
next
  case (Cons msg msgs)
  obtain ok s1 where i: "item idx msg s = (ok, s1)"
    by (cases "item idx msg s") auto
  have f1: "failures (snd s1) = failures (snd s) @ (if ok then [] else [msg_id msg])"
    using Cons.prems(1) [of msg idx s ok s1] i by simp
  have r: "count_downloads item (idx + 1) msgs (if ok then d + 1 else d) s1 = (d', s')"
    using Cons.prems(2) i by simp
  have "\<exists>failed. subseq failed msgs
           \<and> failures (snd s') = failures (snd s1) @ map msg_id failed
           \<and> d' + int (length failed) = (if ok then d + 1 else d) + int (length msgs)"
    by (rule Cons.IH [OF _ r]) (simp add: Cons.prems(1))
  then obtain failed where f: "subseq failed msgs"
    "failures (snd s') = failures (snd s1) @ map msg_id failed"
    "d' + int (length failed) = (if ok then d + 1 else d) + int (length msgs)"
    by blast
  show ?case
  proof (cases ok)
    case True
    with f f1 show ?thesis
      by (intro exI [of _ failed]) auto
  next
    case False
    with f f1 show ?thesis
      by (intro exI [of _ "msg # failed"]) auto
  qed
qed

lemma enumerate_from_snd [simp]: "map snd (enumerate_from i xs) = xs"
  by (induction xs arbitrary: i) auto


lemma length_enumerate_from [simp]: "length (enumerate_from i xs) = length xs"
  by (induction xs arbitrary: i) auto

lemma concat_map_single: "concat (map (\<lambda>x. [f x]) xs) = map f xs"
  by (induction xs) auto

lemma download_item_effect:
  assumes "has_media msg" and "download_item c base_dir idx msg s = (ok, s')"
  shows "attempts (snd s') = attempts (snd s) @ [(msg, temp_path base_dir idx msg)]"
    and "mkdirs (snd s') = mkdirs (snd s)"
    and "failures (snd s') = failures (snd s) @ (if ok then [] else [msg_id msg])"
proof -
  obtain k ext where c: "classify msg = Some (k, ext)"
    using assms(1) by (auto simp: has_media_classify)
  obtain w tr where s: "s = (w, tr)" by (cases s)
  obtain w' tr' where s': "s' = (w', tr')" by (cases s')
  from download_item_trace [OF assms(2) [unfolded s s'] c] obtain tr2 where
    "tr' = tr @ DownloadMedia msg (save_dir_of base_dir k @ [format_03d idx @ ''.'' @ ext]) # tr2"
    "attempts tr2 = []" "mkdirs tr2 = []" "failures tr2 = (if ok then [] else [msg_id msg])"
    by blast
  with s s' c show "attempts (snd s') = attempts (snd s) @ [(msg, temp_path base_dir idx msg)]"
    and "mkdirs (snd s') = mkdirs (snd s)"
    and "failures (snd s') = failures (snd s) @ (if ok then [] else [msg_id msg])"
    by (simp_all add: temp_path_def kind_of_def ext_of_def)
qed

lemma download_media_from_message_effect:
  assumes "has_media msg" and "download_media_from_message c msg base_dir idx s = (ok, s')"
  shows "mkdirs (snd s') = mkdirs (snd s) @ [save_dir_of base_dir (kind_of msg)]"
    and "failures (snd s') = failures (snd s) @ (if ok then [] else [msg_id msg])"
    and "attempts (snd s') = attempts (snd s) @
           (if fst (mkdir c (save_dir_of base_dir (kind_of msg)) (fst s))
            then [(msg, temp_path base_dir idx msg)] else [])"
proof -
  obtain k ext where c: "classify msg = Some (k, ext)"
    using assms(1) by (auto simp: has_media_classify)
  obtain w tr where s: "s = (w, tr)" by (cases s)
  obtain w' tr' where s': "s' = (w', tr')" by (cases s')
  from download_media_from_message_trace [OF assms(2) [unfolded s s'] c] obtain tr2 where
    "tr' = tr @ Mkdir (save_dir_of base_dir k) # tr2" "mkdirs tr2 = []"
    "attempts tr2 = (if fst (mkdir c (save_dir_of base_dir k) w)
        then [(msg, save_dir_of base_dir k @ [format_03d idx @ ''.'' @ ext])] else [])"
    "failures tr2 = (if ok then [] else [msg_id msg])"
    by blast
  with s s' c show "mkdirs (snd s') = mkdirs (snd s) @ [save_dir_of base_dir (kind_of msg)]"
    and "failures (snd s') = failures (snd s) @ (if ok then [] else [msg_id msg])"
    and "attempts (snd s') = attempts (snd s) @
           (if fst (mkdir c (save_dir_of base_dir (kind_of msg)) (fst s))
            then [(msg, temp_path base_dir idx msg)] else [])"
    by (simp_all add: temp_path_def kind_of_def ext_of_def)
qed

text \<open>The loop of the bot flow over media messages.\<close>

lemma bot_loop_effect:
  assumes media: "\<forall>msg\<in>set msgs. has_media msg"
    and run: "count_downloads (download_item c base_dir) idx msgs d s = (d', s')"
  shows "attempts (snd s') =
           attempts (snd s) @ map (\<lambda>(i, m). (m, temp_path base_dir i m)) (enumerate_from idx msgs)"
    and "mkdirs (snd s') = mkdirs (snd s)"
    and "\<exists>failed. subseq failed msgs
           \<and> failures (snd s') = failures (snd s) @ map msg_id failed
           \<and> d' + int (length failed) = d + int (length msgs)"
proof -
  have "attempts (snd (snd (count_downloads (download_item c base_dir) idx msgs d s))) =
      attempts (snd s) @ concat (map (\<lambda>(i, m). [(m, temp_path base_dir i m)])
        (enumerate_from idx msgs))"
  proof (rule count_downloads_proj)
    fix i msg and t :: "'a sys"
    assume "msg \<in> set msgs"
    with media have "has_media msg" by simp
    then show "attempts (snd (snd (download_item c base_dir i msg t))) =
        attempts (snd t) @ [(msg, temp_path base_dir i msg)]"
      using download_item_effect(1) [of msg c base_dir i t]
      by (cases "download_item c base_dir i msg t") auto
  qed simp
  moreover have "concat (map (\<lambda>(i, m). [(m, temp_path base_dir i m)]) (enumerate_from idx msgs))
      = map (\<lambda>(i, m). (m, temp_path base_dir i m)) (enumerate_from idx msgs)"
    using concat_map_single [of "\<lambda>(i, m). (m, temp_path base_dir i m)" "enumerate_from idx msgs"]
    by (simp add: case_prod_unfold)
  ultimately show "attempts (snd s') =
      attempts (snd s) @ map (\<lambda>(i, m). (m, temp_path base_dir i m)) (enumerate_from idx msgs)"
    using run by simp
  have "mkdirs (snd (snd (count_downloads (download_item c base_dir) idx msgs d s))) =
      mkdirs (snd s) @ concat (map (\<lambda>(i, m). []) (enumerate_from idx msgs))"
  proof (rule count_downloads_proj)
    fix i msg and t :: "'a sys"
    assume "msg \<in> set msgs"
    with media have "has_media msg" by simp
    then show "mkdirs (snd (snd (download_item c base_dir i msg t))) = mkdirs (snd t) @ []"
      using download_item_effect(2) [of msg c base_dir i t]
      by (cases "download_item c base_dir i msg t") auto
  qed simp
  then show "mkdirs (snd s') = mkdirs (snd s)"
    using run by (simp add: case_prod_unfold)
  show "\<exists>failed. subseq failed msgs
           \<and> failures (snd s') = failures (snd s) @ map msg_id failed
           \<and> d' + int (length failed) = d + int (length msgs)"
  proof (rule count_downloads_failures [OF _ run])
    fix i msg ok and t t' :: "'a sys"
    assume "msg \<in> set msgs" and "download_item c base_dir i msg t = (ok, t')"
    with media show "failures (snd t') = failures (snd t) @ (if ok then [] else [msg_id msg])"
      using download_item_effect(3) by blast
  qed
qed

text \<open>The loop of the comment flow and of the topic flow over media messages.\<close>

lemma thread_loop_effect:
  assumes media: "\<forall>msg\<in>set msgs. has_media msg"
    and run: "count_downloads (\<lambda>i m. download_media_from_message c m base_dir i) idx msgs d s
                = (d', s')"
  shows "mkdirs (snd s') = mkdirs (snd s) @ map (\<lambda>m. save_dir_of base_dir (kind_of m)) msgs"
    and "\<exists>failed. subseq failed msgs
           \<and> failures (snd s') = failures (snd s) @ map msg_id failed
           \<and> d' + int (length failed) = d + int (length msgs)"
    and "(\<forall>p w. fst (mkdir c p w)) \<Longrightarrow>
         attempts (snd s') =
           attempts (snd s) @ map (\<lambda>(i, m). (m, temp_path base_dir i m)) (enumerate_from idx msgs)"
proof -
  let ?item = "\<lambda>i m. download_media_from_message c m base_dir i"
  have "mkdirs (snd (snd (count_downloads ?item idx msgs d s))) =
      mkdirs (snd s) @ concat (map (\<lambda>(i, m). [save_dir_of base_dir (kind_of m)])
        (enumerate_from idx msgs))"
  proof (rule count_downloads_proj)
    fix i msg and t :: "'a sys"
    assume "msg \<in> set msgs"
    with media have "has_media msg" by simp
    then show "mkdirs (snd (snd (download_media_from_message c msg base_dir i t))) =
        mkdirs (snd t) @ [save_dir_of base_dir (kind_of msg)]"
      using download_media_from_message_effect(1) [of msg c base_dir i t]
      by (cases "download_media_from_message c msg base_dir i t") auto
  qed simp
  moreover have "concat (map (\<lambda>(i, m). [save_dir_of base_dir (kind_of m)]) (enumerate_from idx msgs))
      = map (\<lambda>m. save_dir_of base_dir (kind_of m)) (map snd (enumerate_from idx msgs))"
    using concat_map_single [of "\<lambda>(i, m). save_dir_of base_dir (kind_of m)" "enumerate_from idx msgs"]
    by (simp add: case_prod_unfold o_def del: enumerate_from_snd)
  ultimately show "mkdirs (snd s') =
      mkdirs (snd s) @ map (\<lambda>m. save_dir_of base_dir (kind_of m)) msgs"
    using run by simp
  show "\<exists>failed. subseq failed msgs
           \<and> failures (snd s') = failures (snd s) @ map msg_id failed
           \<and> d' + int (length failed) = d + int (length msgs)"
  proof (rule count_downloads_failures [OF _ run])
    fix i msg ok and t t' :: "'a sys"
    assume "msg \<in> set msgs" and "download_media_from_message c msg base_dir i t = (ok, t')"
    with media show "failures (snd t') = failures (snd t) @ (if ok then [] else [msg_id msg])"
      using download_media_from_message_effect(2) by blast
  qed
  assume mk: "\<forall>p w. fst (mkdir c p w)"
  have "attempts (snd (snd (count_downloads ?item idx msgs d s))) =
      attempts (snd s) @ concat (map (\<lambda>(i, m). [(m, temp_path base_dir i m)])
        (enumerate_from idx msgs))"
  proof (rule count_downloads_proj)
    fix i msg and t :: "'a sys"
    assume "msg \<in> set msgs"
    with media have "has_media msg" by simp
    then show "attempts (snd (snd (download_media_from_message c msg base_dir i t))) =
        attempts (snd t) @ [(msg, temp_path base_dir i msg)]"
      using download_media_from_message_effect(3) [of msg c base_dir i t] mk
      by (cases "download_media_from_message c msg base_dir i t") auto
  qed simp
  moreover have "concat (map (\<lambda>(i, m). [(m, temp_path base_dir i m)]) (enumerate_from idx msgs))
      = map (\<lambda>(i, m). (m, temp_path base_dir i m)) (enumerate_from idx msgs)"
    using concat_map_single [of "\<lambda>(i, m). (m, temp_path base_dir i m)" "enumerate_from idx msgs"]
    by (simp add: case_prod_unfold)
  ultimately show "attempts (snd s') =
      attempts (snd s) @ map (\<lambda>(i, m). (m, temp_path base_dir i m)) (enumerate_from idx msgs)"
    using run by simp
qed


lemma download_media_messages_none:
  assumes "filter (\<lambda>m. \<not> out m \<and> has_media m) messages = []"
  shows "download_media_messages c messages base_dir start_index s = (Inr 0, s)"
  using assms by (simp add: download_media_messages_def)

lemma download_media_messages_effect:
  assumes run: "download_media_messages c messages base_dir start_index s = (res, s')"
    and ne: "filter (\<lambda>m. \<not> out m \<and> has_media m) messages \<noteq> []"
  shows "(\<forall>n. res = Inr n \<longrightarrow>
            attempts (snd s') =
              attempts (snd s) @ map (\<lambda>(i, m). (m, temp_path base_dir i m))
                (enumerate_from (start_index + 1)
                   (sort_key msg_id (filter (\<lambda>m. \<not> out m \<and> has_media m) messages)))
          \<and> mkdirs (snd s') = mkdirs (snd s) @ [base_dir @ [images_name], base_dir @ [videos_name]]
          \<and> (\<exists>failed. subseq failed (sort_key msg_id (filter (\<lambda>m. \<not> out m \<and> has_media m) messages))
                \<and> failures (snd s') = failures (snd s) @ map msg_id failed
                \<and> n + int (length failed) =
                    int (length (filter (\<lambda>m. \<not> out m \<and> has_media m) messages))))
       \<and> (\<forall>e. res = Inl e \<longrightarrow>
            e = MkdirError \<and> attempts (snd s') = attempts (snd s)
          \<and> failures (snd s') = failures (snd s)
          \<and> (mkdirs (snd s') = mkdirs (snd s) @ [base_dir @ [images_name]]
             \<or> mkdirs (snd s') = mkdirs (snd s) @ [base_dir @ [images_name], base_dir @ [videos_name]]))"
proof -
  let ?media = "sort_key msg_id (filter (\<lambda>m. \<not> out m \<and> has_media m) messages)"
  obtain w tr where s: "s = (w, tr)" by (cases s)
  obtain ok1 w1 where m1: "mkdir c (base_dir @ [images_name]) w = (ok1, w1)"
    by (cases "mkdir c (base_dir @ [images_name]) w") auto
  obtain ok2 w2 where m2: "mkdir c (base_dir @ [videos_name]) w1 = (ok2, w2)"
    by (cases "mkdir c (base_dir @ [videos_name]) w1") auto
  let ?tr2 = "tr @ [Mkdir (base_dir @ [images_name])] @ [Mkdir (base_dir @ [videos_name])]"
  obtain d t where l: "count_downloads (download_item c base_dir) (start_index + 1) ?media 0
      (w2, ?tr2) = (d, t)"
    by (cases "count_downloads (download_item c base_dir) (start_index + 1) ?media 0 (w2, ?tr2)")
      auto
  have media: "\<forall>msg\<in>set ?media. has_media msg"
    by simp
  show ?thesis
  proof (cases "ok1 \<and> ok2")
    case False
    with run ne s m1 m2 show ?thesis
      by (auto simp: download_media_messages_def Let_def split: if_splits)
  next
    case True
    with run ne s m1 m2 l have r: "res = Inr d" "s' = t"
      by (auto simp: download_media_messages_def Let_def)
    from bot_loop_effect [OF media l] s r True show ?thesis
      by simp
  qed
qed

section \<open>The subfolders\<close>









section \<open>Resuming the comment flow\<close>






section \<open>The page loop of the bot flow\<close>

lemma pages_append [simp]: "pages (tr @ tr') = pages tr + pages tr'"
  by (simp add: pages_def)

lemma clicks_append [simp]: "clicks (tr @ tr') = clicks tr @ clicks tr'"
  by (induction tr rule: clicks.induct) auto

lemma transfer_events_pages: "list_all is_transfer_event tr \<Longrightarrow> pages tr = 0 \<and> clicks tr = []"
proof (induction tr)
  case Nil
  then show ?case by (simp add: pages_def)
next
  case (Cons e tr)
  then show ?case by (cases e) (auto simp: pages_def)
qed

lemma save_media_appends:
  "\<exists>tr2. snd (snd (save_media c msg dir idx ext (w, tr))) = tr @ tr2 \<and> list_all is_transfer_event tr2"
  by (auto simp: save_media_def Let_def split: prod.splits)

lemma download_item_appends:
  "\<exists>tr2. snd (snd (download_item c base_dir idx msg s)) = snd s @ tr2
         \<and> list_all is_transfer_event tr2"
proof (cases "classify msg")
  case None
  then show ?thesis by (simp add: download_item_def)
next
  case (Some a)
  obtain k ext where a: "a = (k, ext)" by (cases a)
  obtain w tr where s: "s = (w, tr)" by (cases s)
  obtain tr2 where t: "snd (snd (save_media c msg (save_dir_of base_dir k) idx ext (w, tr))) = tr @ tr2"
    "list_all is_transfer_event tr2"
    using save_media_appends [of c msg "save_dir_of base_dir k" idx ext w tr] by blast
  show ?thesis
  proof (cases "fst (save_media c msg (save_dir_of base_dir k) idx ext (w, tr))")
    case True
    with Some a s t show ?thesis
      by (auto simp: download_item_def split: prod.splits)
  next
    case False
    with Some a s t show ?thesis
      by (intro exI [of _ "tr2 @ [LogFailed (msg_id msg)]"])
         (auto simp: download_item_def split: prod.splits)
  qed
qed

lemma count_downloads_appends:
  fixes item :: "int \<Rightarrow> message \<Rightarrow> 'w sys \<Rightarrow> bool \<times> 'w sys"
  assumes step: "\<And>idx msg s. \<exists>tr2. snd (snd (item idx msg s)) = snd s @ tr2 \<and> list_all P tr2"
  shows "\<exists>tr2. snd (snd (count_downloads item idx msgs d s)) = snd s @ tr2 \<and> list_all P tr2"
proof (induction msgs arbitrary: idx d s)
  case Nil
  then show ?case by simp
next
  case (Cons msg msgs)
  obtain ok s1 where i: "item idx msg s = (ok, s1)"
    by (cases "item idx msg s") auto
  from step [of idx msg s] i obtain tr1 where t1: "snd s1 = snd s @ tr1" "list_all P tr1"
    by auto
  from Cons.IH [of "idx + 1" "if ok then d + 1 else d" s1] obtain tr2 where
    t2: "snd (snd (count_downloads item (idx + 1) msgs (if ok then d + 1 else d) s1)) = snd s1 @ tr2"
    "list_all P tr2"
    by blast
  from i t1 t2 show ?case
    by (intro exI [of _ "tr1 @ tr2"]) simp
qed

lemma download_media_messages_appends:
  "\<exists>tr2. snd (snd (download_media_messages c messages base_dir start_index s)) = snd s @ tr2
         \<and> list_all is_transfer_event tr2"
proof -
  let ?media = "sort_key msg_id (filter (\<lambda>m. \<not> out m \<and> has_media m) messages)"
  obtain w tr where s: "s = (w, tr)" by (cases s)
  obtain ok1 w1 where m1: "mkdir c (base_dir @ [images_name]) w = (ok1, w1)"
    by (cases "mkdir c (base_dir @ [images_name]) w") auto
  obtain ok2 w2 where m2: "mkdir c (base_dir @ [videos_name]) w1 = (ok2, w2)"
    by (cases "mkdir c (base_dir @ [videos_name]) w1") auto
  let ?tr2 = "tr @ [Mkdir (base_dir @ [images_name])] @ [Mkdir (base_dir @ [videos_name])]"
  have "\<exists>tr3. snd (snd (count_downloads (download_item c base_dir) (start_index + 1)
      ?media 0 (w2, ?tr2))) = snd (w2, ?tr2) @ tr3 \<and> list_all is_transfer_event tr3"
    by (rule count_downloads_appends) (rule download_item_appends)
  then obtain tr3 where t: "snd (snd (count_downloads (download_item c base_dir) (start_index + 1)
      ?media 0 (w2, ?tr2))) = ?tr2 @ tr3" "list_all is_transfer_event tr3"
    by auto
  show ?thesis
  proof (cases "filter (\<lambda>m. \<not> out m \<and> has_media m) messages = []")
    case True
    then show ?thesis
      by (simp add: download_media_messages_none)
  next
    case False
    show ?thesis
    proof (cases "ok1 \<and> ok2")
      case True
      with False s m1 m2 t show ?thesis
        by (intro exI [of _ "[Mkdir (base_dir @ [images_name]), Mkdir (base_dir @ [videos_name])] @ tr3"])
           (auto simp: download_media_messages_def Let_def split: prod.splits)
    next
      case False
      with \<open>filter (\<lambda>m. \<not> out m \<and> has_media m) messages \<noteq> []\<close> s m1 m2 show ?thesis
        by (auto simp: download_media_messages_def Let_def)
    qed
  qed
qed

lemma download_media_messages_attempts:
  assumes "download_media_messages c messages base_dir start_index s = (res, s')"
  shows "map fst (attempts (snd s')) =
           map fst (attempts (snd s))
             @ (case res of
                  Inr n \<Rightarrow> sort_key msg_id (filter (\<lambda>m. \<not> out m \<and> has_media m) messages)
                | Inl e \<Rightarrow> [])"
proof (cases "filter (\<lambda>m. \<not> out m \<and> has_media m) messages = []")
  case True
  with assms show ?thesis
    by (auto simp: download_media_messages_none)
next
  case False
  from download_media_messages_effect [OF assms False] show ?thesis
    by (cases res) (simp_all add: case_prod_unfold o_def flip: map_map [of snd])
qed

lemma find_next_page_button_Some:
  assumes "find_next_page_button messages page = Inr (Some (m, b))"
  shows "m \<in> set messages \<and> \<not> out m \<and> buttons m \<noteq> []"
proof -
  let ?cands = "filter (\<lambda>m. \<not> out m \<and> buttons m \<noteq> []) messages"
  from assms obtain latest rest where s: "sort_key (\<lambda>m. - msg_id m) ?cands = latest # rest"
    by (cases "sort_key (\<lambda>m. - msg_id m) ?cands") (auto simp: find_next_page_button_def)
  with assms have "m = latest"
    by (auto simp: find_next_page_button_def split: sum.splits option.splits)
  with sort_key_head [OF s] show ?thesis
    by auto
qed

lemma find_next_page_button_filter_out:
  "find_next_page_button (filter (\<lambda>m. \<not> out m) messages) page
     = find_next_page_button messages page"
proof -
  have "filter (\<lambda>m. \<not> out m \<and> buttons m \<noteq> []) (filter (\<lambda>m. \<not> out m) messages)
      = filter (\<lambda>m. \<not> out m \<and> buttons m \<noteq> []) messages"
    by (induction messages) auto
  then show ?thesis
    by (simp only: find_next_page_button_def)
qed

lemma foldl_insert_ids:
  "foldl (\<lambda>ids msg. if has_media msg then insert (msg_id msg) ids else ids) ids0 msgs
     = ids0 \<union> msg_id ` {m \<in> set msgs. has_media m}"
  by (induction msgs arbitrary: ids0) auto

text \<open>What one run of the loop body does to the state.\<close>

lemma page_body_summary:
  assumes run: "page_body c out_dir wm st = (r, st')"
  shows "\<exists>tr2 new.
           snd (sys st') = snd (sys st) @ GetMessages 50 # tr2
         \<and> pages tr2 = 0
         \<and> (new = [] \<or> (\<exists>messages w1.
               get_messages c 50 (fst (sys st)) = (Some messages, w1)
               \<and> new = filter (\<lambda>msg. wm < msg_id msg \<and> msg_id msg \<notin> downloaded_msg_ids st)
                         messages))
         \<and> downloaded_msg_ids st' = downloaded_msg_ids st \<union> msg_id ` {m \<in> set new. has_media m}
         \<and> (map fst (attempts tr2) = []
            \<or> map fst (attempts tr2) = sort_key msg_id (filter (\<lambda>m. \<not> out m \<and> has_media m) new))
         \<and> set (clicks tr2) \<subseteq> {m \<in> set new. \<not> out m}
         \<and> (r = None \<longrightarrow> current_page st' = current_page st + 1)
         \<and> (r \<noteq> None \<longrightarrow> current_page st' = current_page st)
         \<and> r \<noteq> Some PageLimit"
proof -
  obtain w tr where s: "sys st = (w, tr)" by (cases "sys st")
  obtain fetched w1 where g: "get_messages c 50 w = (fetched, w1)"
    by (cases "get_messages c 50 w") auto
  show ?thesis
  proof (cases fetched)
    case None
    with run s g have "r = Some (Raised GetMessagesError)"
      and "st' = st\<lparr>sys := (w1, tr @ [GetMessages 50])\<rparr>"
      by (auto simp: page_body_def)
    with s show ?thesis
      by (intro exI [of _ "[]"]) (simp add: pages_def)
  next
    case (Some messages)
    let ?new = "filter (\<lambda>msg. wm < msg_id msg \<and> msg_id msg \<notin> downloaded_msg_ids st) messages"
    let ?ids = "downloaded_msg_ids st \<union> msg_id ` {m \<in> set ?new. has_media m}"
    show ?thesis
    proof (cases "?new = []")
      case True
      with run s g Some have "r = Some NoNewMessages"
        and "st' = st\<lparr>sys := (w1, tr @ [GetMessages 50])\<rparr>"
        by (auto simp: page_body_def)
      with s show ?thesis
        by (intro exI [of _ "[]"]) (simp add: pages_def)
    next
      case False
      obtain res s2 where d: "download_media_messages c ?new out_dir (total_downloaded st)
          (w1, tr @ [GetMessages 50]) = (res, s2)"
        by (cases "download_media_messages c ?new out_dir (total_downloaded st)
          (w1, tr @ [GetMessages 50])") auto
      from download_media_messages_appends [of c ?new out_dir "total_downloaded st"
          "(w1, tr @ [GetMessages 50])"] d
      obtain tra where a: "snd s2 = (tr @ [GetMessages 50]) @ tra" "list_all is_transfer_event tra"
        by auto
      from download_media_messages_attempts [OF d] a
      have att: "map fst (attempts tra) = []
          \<or> map fst (attempts tra) = sort_key msg_id (filter (\<lambda>m. \<not> out m \<and> has_media m) ?new)"
        by (cases res) auto
      from transfer_events_pages [OF a(2)] have p: "pages tra = 0" "clicks tra = []"
        by simp_all
      obtain w2 where s2: "s2 = (w2, tr @ GetMessages 50 # tra)"
        using a by (cases s2) auto
      have new: "?new = [] \<or> (\<exists>messages' w1'.
          get_messages c 50 (fst (sys st)) = (Some messages', w1')
          \<and> ?new = filter (\<lambda>msg. wm < msg_id msg \<and> msg_id msg \<notin> downloaded_msg_ids st) messages')"
        using s g Some by auto
      \<comment> \<open>the state when the batch has been downloaded\<close>
      let ?st1 = "st\<lparr>sys := s2, downloaded_msg_ids := ?ids\<rparr>"
      show ?thesis
      proof (cases res)
        case (Inl e)
        with run s g Some False d have "r = Some (Raised e)" and "st' = ?st1"
          by (auto simp: page_body_def Let_def foldl_insert_ids)
        with s s2 att p new show ?thesis
          by (intro exI [of _ tra] exI [of _ ?new]) simp
      next
        case (Inr n)
        let ?st2 = "?st1\<lparr>total_downloaded := total_downloaded st + n\<rparr>"
        show ?thesis
        proof (cases "find_next_page_button ?new (current_page st)")
          case (Inl e)
          with run s g Some False d Inr have "r = Some (Raised e)" and "st' = ?st2"
            by (auto simp: page_body_def Let_def foldl_insert_ids)
          with s s2 att p new show ?thesis
            by (intro exI [of _ tra] exI [of _ ?new]) simp
        next
          case f: (Inr found)
          show ?thesis
          proof (cases found)
            case None
            with run s g Some False d Inr f have "r = Some NoNextButton" and "st' = ?st2"
              by (auto simp: page_body_def Let_def foldl_insert_ids)
            with s s2 att p new show ?thesis
              by (intro exI [of _ tra] exI [of _ ?new]) simp
          next
            case (Some mb)
            obtain m b where mb: "mb = (m, b)" by (cases mb)
            obtain ok w3 where c: "click c m b w2 = (ok, w3)"
              by (cases "click c m b w2") auto
            from find_next_page_button_Some [of ?new "current_page st" m b] f Some mb
            have m: "m \<in> set ?new" "\<not> out m"
              by simp_all
            let ?st3 = "?st2\<lparr>sys := (w3, tr @ GetMessages 50 # tra @ [Click m b])\<rparr>"
            from run s g \<open>fetched = Some messages\<close> False d Inr f Some mb c s2
            have "(r = Some (Raised ClickError) \<and> st' = ?st3)
                \<or> (r = None \<and> st' = ?st3\<lparr>current_page := current_page st + 1\<rparr>)"
              by (cases ok) (auto simp: page_body_def Let_def foldl_insert_ids)
            moreover have "pages (tra @ [Click m b]) = 0"
              and "set (clicks (tra @ [Click m b])) \<subseteq> {m \<in> set ?new. \<not> out m}"
              and "map fst (attempts (tra @ [Click m b])) = map fst (attempts tra)"
              using p m by (simp_all add: pages_def)
            ultimately show ?thesis
              using s att new
              by (intro exI [of _ "tra @ [Click m b]"] exI [of _ ?new]) (elim disjE conjE; simp)
          qed
        qed
      qed
    qed
  qed
qed

lemma page_body_pages:
  assumes "page_body c out_dir wm st = (r, st')"
  shows "pages (snd (sys st')) = pages (snd (sys st)) + 1"
proof -
  from page_body_summary [OF assms] obtain tr2 where
    "snd (sys st') = snd (sys st) @ GetMessages 50 # tr2" "pages tr2 = 0"
    by blast
  then show ?thesis
    by (simp add: pages_def)
qed

text \<open>
  With a page limit, the loop is left after at most as many bodies as pages remain.
\<close>

lemma page_loop_halts:
  assumes "0 < max_pages" and "nat (max_pages + 1 - current_page st) \<le> fuel"
  shows "\<exists>r st'. page_loop fuel c out_dir max_pages wm st = (Some r, st')
           \<and> pages (snd (sys st')) \<le> pages (snd (sys st)) + nat (max_pages + 1 - current_page st)
           \<and> (r = PageLimit \<longrightarrow> current_page st \<le> max_pages + 1 \<longrightarrow>
                current_page st' = max_pages + 1
              \<and> pages (snd (sys st'))
                  = pages (snd (sys st)) + nat (max_pages + 1 - current_page st))"
  using assms(2)
proof (induction fuel arbitrary: st)
  case 0
  with assms(1) show ?case
    by (simp add: page_loop.simps [of 0])
next
  case (Suc fuel)
  show ?case
  proof (cases "current_page st \<le> max_pages")
    case False
    with assms(1) show ?thesis
      by (simp add: page_loop.simps [of "Suc fuel"])
  next
    case True
    obtain r0 st1 where b: "page_body c out_dir wm st = (r0, st1)"
      by (cases "page_body c out_dir wm st") auto
    note p = page_body_pages [OF b]
    from page_body_summary [OF b]
    have cp: "r0 = None \<longrightarrow> current_page st1 = current_page st + 1"
      and nl: "r0 \<noteq> Some PageLimit"
      by blast+
    show ?thesis
    proof (cases r0)
      case None
      with cp have c1: "current_page st1 = current_page st + 1" by simp
      with Suc.prems True have "nat (max_pages + 1 - current_page st1) \<le> fuel"
        by simp
      from Suc.IH [OF this] obtain r st' where
        l: "page_loop fuel c out_dir max_pages wm st1 = (Some r, st')"
        "pages (snd (sys st')) \<le> pages (snd (sys st1)) + nat (max_pages + 1 - current_page st1)"
        "r = PageLimit \<longrightarrow> current_page st1 \<le> max_pages + 1 \<longrightarrow>
           current_page st' = max_pages + 1
           \<and> pages (snd (sys st'))
               = pages (snd (sys st1)) + nat (max_pages + 1 - current_page st1)"
        by blast
      have e: "page_loop (Suc fuel) c out_dir max_pages wm st = (Some r, st')"
        using True b None l(1) by (simp add: page_loop.simps [of "Suc fuel"])
      have n: "Suc (nat (max_pages + 1 - current_page st1)) = nat (max_pages + 1 - current_page st)"
        using c1 True by simp
      from l(2,3) p n c1 True e show ?thesis
        by auto
    next
      case (Some r)
      with nl have "r \<noteq> PageLimit" by simp
      moreover have "page_loop (Suc fuel) c out_dir max_pages wm st = (Some r, st1)"
        using True b Some by (simp add: page_loop.simps [of "Suc fuel"])
      moreover have "pages (snd (sys st1)) \<le> pages (snd (sys st)) + nat (max_pages + 1 - current_page st)"
        using p True by simp
      ultimately show ?thesis
        by simp
    qed
  qed
qed

text \<open>A property of the state that every loop body keeps holds when the loop is left.\<close>

lemma page_loop_invariant:
  assumes step: "\<And>st r st'. I st \<Longrightarrow> page_body c out_dir wm st = (r, st') \<Longrightarrow> I st'"
    and "I st"
  shows "I (snd (page_loop fuel c out_dir max_pages wm st))"
  using assms(2)
proof (induction fuel arbitrary: st)
  case 0
  then show ?case
    by (simp add: page_loop.simps [of 0])
next
  case (Suc fuel)
  obtain r0 st1 where b: "page_body c out_dir wm st = (r0, st1)"
    by (cases "page_body c out_dir wm st") auto
  from step [OF Suc.prems b] have i1: "I st1" .
  show ?case
  proof (cases "max_pages = 0 \<or> current_page st \<le> max_pages")
    case False
    with Suc.prems show ?thesis
      by (simp add: page_loop.simps [of "Suc fuel"])
  next
    case True
    show ?thesis
    proof (cases r0)
      case None
      with True b Suc.IH [OF i1] show ?thesis
        by (simp add: page_loop.simps [of "Suc fuel"])
    next
      case (Some r)
      with True b i1 show ?thesis
        by (simp add: page_loop.simps [of "Suc fuel"])
    qed
  qed
qed

text \<open>The run before the loop: it ends early with an exception, or the loop starts.\<close>

lemma interact_with_bot_cases:
  "(\<exists>e w' tr. interact_with_bot fuel c bot_username start_param out_dir max_pages w
        = (Some (Raised e), \<lparr>sys = (w', tr), total_downloaded = 0, current_page = 1,
                              downloaded_msg_ids = {}\<rparr>)
      \<and> attempts tr = [] \<and> clicks tr = [] \<and> pages tr = 0)
   \<or> (\<exists>wm w'. interact_with_bot fuel c bot_username start_param out_dir max_pages w
        = page_loop fuel c out_dir max_pages wm
            \<lparr>sys = (w', [GetMessages 1]), total_downloaded = 0, current_page = 1,
              downloaded_msg_ids = {}\<rparr>)"
proof -
  obtain ok1 w1 where a: "get_entity c bot_username w = (ok1, w1)"
    by (cases "get_entity c bot_username w") auto
  obtain old w2 where b: "get_messages c 1 w1 = (old, w2)"
    by (cases "get_messages c 1 w1") auto
  obtain ok3 w3 where d: "send_message c (''/start '' @ start_param) w2 = (ok3, w3)"
    by (cases "send_message c (''/start '' @ start_param) w2") auto
  show ?thesis
  proof (cases "ok1 \<and> old \<noteq> None \<and> ok3")
    case True
    then obtain old_messages where "old = Some old_messages" by auto
    with True a b d show ?thesis
      by (intro disjI2) (auto simp: interact_with_bot_def Let_def)
  next
    case False
    with a b d show ?thesis
      by (intro disjI1) (auto simp: interact_with_bot_def Let_def pages_def split: option.splits)
  qed
qed

section \<open>Failures of single items\<close>

text \<open>One item of the bot flow: the transfer fails, or it succeeds and the rename decides.\<close>

lemma download_item_transfer_fails:
  assumes "has_media msg"
    and "download_media c msg (temp_path base_dir idx msg) w = (False, w1)"
  shows "download_item c base_dir idx msg (w, tr)
      = (False, w1, tr @ [DownloadMedia msg (temp_path base_dir idx msg), LogFailed (msg_id msg)])"
proof -
  obtain k ext where c: "classify msg = Some (k, ext)"
    using assms(1) by (auto simp: has_media_classify)
  with assms(2) show ?thesis
    by (simp add: Let_def download_item_def save_media_def temp_path_def kind_of_def ext_of_def)
qed

lemma download_item_transfer_succeeds:
  assumes "has_media msg"
    and "download_media c msg (temp_path base_dir idx msg) w = (True, w1)"
    and "time_ms c w1 = (timestamp, w2)"
    and "rename c (temp_path base_dir idx msg) (final_path base_dir idx timestamp msg) w2 = (ok, w3)"
  shows "download_item c base_dir idx msg (w, tr)
      = (ok, w3, tr @ [DownloadMedia msg (temp_path base_dir idx msg),
                       Rename (temp_path base_dir idx msg) (final_path base_dir idx timestamp msg)]
                    @ (if ok then [] else [LogFailed (msg_id msg)]))"
proof -
  obtain k ext where c: "classify msg = Some (k, ext)"
    using assms(1) by (auto simp: has_media_classify)
  with assms(2-4) show ?thesis
    by (simp add: Let_def download_item_def save_media_def temp_path_def final_path_def kind_of_def
        ext_of_def)
qed

text \<open>One item of the comment flow and of the topic flow.\<close>

lemma download_media_from_message_mkdir_fails:
  assumes "has_media msg"
    and "mkdir c (save_dir_of base_dir (kind_of msg)) w = (False, w0)"
  shows "download_media_from_message c msg base_dir idx (w, tr)
      = (False, w0, tr @ [Mkdir (save_dir_of base_dir (kind_of msg)), LogFailed (msg_id msg)])"
proof -
  obtain k ext where c: "classify msg = Some (k, ext)"
    using assms(1) by (auto simp: has_media_classify)
  with assms(2) show ?thesis
    by (simp add: Let_def download_media_from_message_def kind_of_def)
qed

lemma download_media_from_message_transfer_fails:
  assumes "has_media msg"
    and "mkdir c (save_dir_of base_dir (kind_of msg)) w = (True, w0)"
    and "download_media c msg (temp_path base_dir idx msg) w0 = (False, w1)"
  shows "download_media_from_message c msg base_dir idx (w, tr)
      = (False, w1, tr @ [Mkdir (save_dir_of base_dir (kind_of msg)),
                          DownloadMedia msg (temp_path base_dir idx msg),
                          LogFailed (msg_id msg)])"
proof -
  obtain k ext where c: "classify msg = Some (k, ext)"
    using assms(1) by (auto simp: has_media_classify)
  with assms(2,3) show ?thesis
    by (simp add: Let_def download_media_from_message_def save_media_def temp_path_def kind_of_def
        ext_of_def)
qed

lemma download_media_from_message_transfer_succeeds:
  assumes "has_media msg"
    and "mkdir c (save_dir_of base_dir (kind_of msg)) w = (True, w0)"
    and "download_media c msg (temp_path base_dir idx msg) w0 = (True, w1)"
    and "time_ms c w1 = (timestamp, w2)"
    and "rename c (temp_path base_dir idx msg) (final_path base_dir idx timestamp msg) w2 = (ok, w3)"
  shows "download_media_from_message c msg base_dir idx (w, tr)
      = (ok, w3, tr @ [Mkdir (save_dir_of base_dir (kind_of msg)),
                       DownloadMedia msg (temp_path base_dir idx msg),
                       Rename (temp_path base_dir idx msg) (final_path base_dir idx timestamp msg)]
                    @ (if ok then [] else [LogFailed (msg_id msg)]))"
proof -
  obtain k ext where c: "classify msg = Some (k, ext)"
    using assms(1) by (auto simp: has_media_classify)
  with assms(2-5) show ?thesis
    by (simp add: Let_def download_media_from_message_def save_media_def temp_path_def final_path_def
        kind_of_def ext_of_def)
qed

text \<open>The counting loop counts the items that succeeded and goes through all items.\<close>

lemma item_results_fst [simp]: "map fst (item_results item idx msgs s) = msgs"
  by (induction msgs arbitrary: idx s) auto

lemma count_downloads_item_results:
  "fst (count_downloads item idx msgs d s)
     = d + int (length (filter snd (item_results item idx msgs s)))"
proof (induction msgs arbitrary: idx d s)
  case Nil
  then show ?case by simp
next
  case (Cons msg msgs)
  then show ?case
    by (cases "item idx msg s") auto
qed

lemma count_downloads_failures_results:
  fixes item :: "int \<Rightarrow> message \<Rightarrow> 'w sys \<Rightarrow> bool \<times> 'w sys"
  assumes step: "\<And>idx msg s ok s'. msg \<in> set msgs \<Longrightarrow> item idx msg s = (ok, s') \<Longrightarrow>
      failures (snd s') = failures (snd s) @ (if ok then [] else [msg_id msg])"
  shows "failures (snd (snd (count_downloads item idx msgs d s)))
     = failures (snd s)
       @ map (\<lambda>r. msg_id (fst r)) (filter (\<lambda>r. \<not> snd r) (item_results item idx msgs s))"
  using step
proof (induction msgs arbitrary: idx d s)
  case Nil
  then show ?case by simp
next
  case (Cons msg msgs)
  obtain ok s1 where i: "item idx msg s = (ok, s1)"
    by (cases "item idx msg s") auto
  have f1: "failures (snd s1) = failures (snd s) @ (if ok then [] else [msg_id msg])"
    using Cons.prems [of msg idx s ok s1] i by simp
  have "failures (snd (snd (count_downloads item (idx + 1) msgs (if ok then d + 1 else d) s1)))
      = failures (snd s1)
        @ map (\<lambda>r. msg_id (fst r)) (filter (\<lambda>r. \<not> snd r) (item_results item (idx + 1) msgs s1))"
    by (rule Cons.IH) (simp add: Cons.prems)
  with i f1 show ?case
    by simp
qed

lemma download_media_messages_run:
  assumes "filter (\<lambda>m. \<not> out m \<and> has_media m) messages \<noteq> []"
    and "mkdir c (base_dir @ [images_name]) w = (True, w1)"
    and "mkdir c (base_dir @ [videos_name]) w1 = (True, w2)"
  shows "download_media_messages c messages base_dir start_index (w, tr)
      = (Inr (fst (count_downloads (download_item c base_dir) (start_index + 1)
                     (sort_key msg_id (filter (\<lambda>m. \<not> out m \<and> has_media m) messages)) 0
                     (w2, tr @ [Mkdir (base_dir @ [images_name]), Mkdir (base_dir @ [videos_name])]))),
         snd (count_downloads (download_item c base_dir) (start_index + 1)
                (sort_key msg_id (filter (\<lambda>m. \<not> out m \<and> has_media m) messages)) 0
                (w2, tr @ [Mkdir (base_dir @ [images_name]), Mkdir (base_dir @ [videos_name])])))"
  using assms by (simp add: download_media_messages_def Let_def case_prod_unfold)

text \<open>
  C8. An item whose transfer fails, or whose rename fails after the transfer, does not
  raise: the failure line with the message id of that item is written and the item is not
  counted; an item whose transfer and rename succeed writes no failure line and is
  counted. The loop goes through all items of the batch in order, each in the world the
  item before it left, whatever the outcomes: the number it returns is the number of the
  items that succeeded, and the failure lines are the ids of the items that failed. This
  holds in the bot flow (where the batch runs this loop once its two subfolders exist) and
  in the comment flow and the topic flow (where a failure to create the save directory
  of an item is caught in the same way).
\<close>

theorem item_failure_does_not_abort:
  fixes c :: "'w env"
  shows "(has_media msg \<longrightarrow>
            (\<forall>w1. download_media c msg (temp_path base_dir idx msg) w = (False, w1) \<longrightarrow>
               download_item c base_dir idx msg (w, tr)
                 = (False, w1, tr @ [DownloadMedia msg (temp_path base_dir idx msg),
                                     LogFailed (msg_id msg)]))
          \<and> (\<forall>w1 timestamp w2 ok w3.
               download_media c msg (temp_path base_dir idx msg) w = (True, w1) \<longrightarrow>
               time_ms c w1 = (timestamp, w2) \<longrightarrow>
               rename c (temp_path base_dir idx msg) (final_path base_dir idx timestamp msg) w2
                 = (ok, w3) \<longrightarrow>
               download_item c base_dir idx msg (w, tr)
                 = (ok, w3, tr @ [DownloadMedia msg (temp_path base_dir idx msg),
                                  Rename (temp_path base_dir idx msg)
                                    (final_path base_dir idx timestamp msg)]
                               @ (if ok then [] else [LogFailed (msg_id msg)])))
          \<and> (\<forall>w0. mkdir c (save_dir_of base_dir (kind_of msg)) w = (False, w0) \<longrightarrow>
               download_media_from_message c msg base_dir idx (w, tr)
                 = (False, w0, tr @ [Mkdir (save_dir_of base_dir (kind_of msg)),
                                     LogFailed (msg_id msg)]))
          \<and> (\<forall>w0 w1. mkdir c (save_dir_of base_dir (kind_of msg)) w = (True, w0) \<longrightarrow>
               download_media c msg (temp_path base_dir idx msg) w0 = (False, w1) \<longrightarrow>
               download_media_from_message c msg base_dir idx (w, tr)
                 = (False, w1, tr @ [Mkdir (save_dir_of base_dir (kind_of msg)),
                                     DownloadMedia msg (temp_path base_dir idx msg),
                                     LogFailed (msg_id msg)]))
          \<and> (\<forall>w0 w1 timestamp w2 ok w3.
               mkdir c (save_dir_of base_dir (kind_of msg)) w = (True, w0) \<longrightarrow>
               download_media c msg (temp_path base_dir idx msg) w0 = (True, w1) \<longrightarrow>
               time_ms c w1 = (timestamp, w2) \<longrightarrow>
               rename c (temp_path base_dir idx msg) (final_path base_dir idx timestamp msg) w2
                 = (ok, w3) \<longrightarrow>
               download_media_from_message c msg base_dir idx (w, tr)
                 = (ok, w3, tr @ [Mkdir (save_dir_of base_dir (kind_of msg)),
                                  DownloadMedia msg (temp_path base_dir idx msg),
                                  Rename (temp_path base_dir idx msg)
                                    (final_path base_dir idx timestamp msg)]
                               @ (if ok then [] else [LogFailed (msg_id msg)]))))
       \<and> ((\<forall>m\<in>set msgs. has_media m) \<longrightarrow>
            fst (count_downloads (download_item c base_dir) i msgs 0 s)
              = int (length (filter snd (item_results (download_item c base_dir) i msgs s)))
          \<and> failures (snd (snd (count_downloads (download_item c base_dir) i msgs 0 s)))
              = failures (snd s)
                @ map (\<lambda>r. msg_id (fst r))
                    (filter (\<lambda>r. \<not> snd r) (item_results (download_item c base_dir) i msgs s))
          \<and> map fst (attempts (snd (snd (count_downloads (download_item c base_dir) i msgs 0 s))))
              = map fst (attempts (snd s)) @ msgs
          \<and> map fst (item_results (download_item c base_dir) i msgs s) = msgs
          \<and> fst (count_downloads (\<lambda>j m. download_media_from_message c m base_dir j) i msgs 0 s)
              = int (length (filter snd
                  (item_results (\<lambda>j m. download_media_from_message c m base_dir j) i msgs s)))
          \<and> failures (snd (snd
                (count_downloads (\<lambda>j m. download_media_from_message c m base_dir j) i msgs 0 s)))
              = failures (snd s)
                @ map (\<lambda>r. msg_id (fst r))
                    (filter (\<lambda>r. \<not> snd r)
                       (item_results (\<lambda>j m. download_media_from_message c m base_dir j) i msgs s))
          \<and> mkdirs (snd (snd
                (count_downloads (\<lambda>j m. download_media_from_message c m base_dir j) i msgs 0 s)))
              = mkdirs (snd s) @ map (\<lambda>m. save_dir_of base_dir (kind_of m)) msgs
          \<and> map fst (item_results (\<lambda>j m. download_media_from_message c m base_dir j) i msgs s)
              = msgs)
       \<and> (filter (\<lambda>m. \<not> out m \<and> has_media m) messages \<noteq> [] \<longrightarrow>
            (\<forall>w1 w2. mkdir c (base_dir @ [images_name]) w = (True, w1) \<longrightarrow>
               mkdir c (base_dir @ [videos_name]) w1 = (True, w2) \<longrightarrow>
               download_media_messages c messages base_dir start_index (w, tr)
                 = (Inr (fst (count_downloads (download_item c base_dir) (start_index + 1)
                                (sort_key msg_id
                                   (filter (\<lambda>m. \<not> out m \<and> has_media m) messages)) 0
                                (w2, tr @ [Mkdir (base_dir @ [images_name]),
                                           Mkdir (base_dir @ [videos_name])]))),
                    snd (count_downloads (download_item c base_dir) (start_index + 1)
                           (sort_key msg_id
                              (filter (\<lambda>m. \<not> out m \<and> has_media m) messages)) 0
                           (w2, tr @ [Mkdir (base_dir @ [images_name]),
                                      Mkdir (base_dir @ [videos_name])])))))"
proof (intro conjI impI allI)
  assume m: "has_media msg"
  {
    fix w1
    assume "download_media c msg (temp_path base_dir idx msg) w = (False, w1)"
    with m show "download_item c base_dir idx msg (w, tr)
        = (False, w1, tr @ [DownloadMedia msg (temp_path base_dir idx msg), LogFailed (msg_id msg)])"
      by (rule download_item_transfer_fails)
  next
    fix w1 timestamp w2 ok w3
    assume "download_media c msg (temp_path base_dir idx msg) w = (True, w1)"
      and "time_ms c w1 = (timestamp, w2)"
      and "rename c (temp_path base_dir idx msg) (final_path base_dir idx timestamp msg) w2
        = (ok, w3)"
    with m show "download_item c base_dir idx msg (w, tr)
        = (ok, w3, tr @ [DownloadMedia msg (temp_path base_dir idx msg),
                         Rename (temp_path base_dir idx msg)
                           (final_path base_dir idx timestamp msg)]
                      @ (if ok then [] else [LogFailed (msg_id msg)]))"
      by (rule download_item_transfer_succeeds)
  next
    fix w0
    assume "mkdir c (save_dir_of base_dir (kind_of msg)) w = (False, w0)"
    with m show "download_media_from_message c msg base_dir idx (w, tr)
        = (False, w0, tr @ [Mkdir (save_dir_of base_dir (kind_of msg)), LogFailed (msg_id msg)])"
      by (rule download_media_from_message_mkdir_fails)
  next
    fix w0 w1
    assume "mkdir c (save_dir_of base_dir (kind_of msg)) w = (True, w0)"
      and "download_media c msg (temp_path base_dir idx msg) w0 = (False, w1)"
    with m show "download_media_from_message c msg base_dir idx (w, tr)
        = (False, w1, tr @ [Mkdir (save_dir_of base_dir (kind_of msg)),
                            DownloadMedia msg (temp_path base_dir idx msg),
                            LogFailed (msg_id msg)])"
      by (rule download_media_from_message_transfer_fails)
  next
    fix w0 w1 timestamp w2 ok w3
    assume "mkdir c (save_dir_of base_dir (kind_of msg)) w = (True, w0)"
      and "download_media c msg (temp_path base_dir idx msg) w0 = (True, w1)"
      and "time_ms c w1 = (timestamp, w2)"
      and "rename c (temp_path base_dir idx msg) (final_path base_dir idx timestamp msg) w2
        = (ok, w3)"
    with m show "download_media_from_message c msg base_dir idx (w, tr)
        = (ok, w3, tr @ [Mkdir (save_dir_of base_dir (kind_of msg)),
                         DownloadMedia msg (temp_path base_dir idx msg),
                         Rename (temp_path base_dir idx msg)
                           (final_path base_dir idx timestamp msg)]
                      @ (if ok then [] else [LogFailed (msg_id msg)]))"
      by (rule download_media_from_message_transfer_succeeds)
  }
next
  assume media: "\<forall>m\<in>set msgs. has_media m"
  let ?bot = "download_item c base_dir"
  let ?thr = "\<lambda>j m. download_media_from_message c m base_dir j"
  show "fst (count_downloads ?bot i msgs 0 s)
      = int (length (filter snd (item_results ?bot i msgs s)))"
    by (simp add: count_downloads_item_results)
  show "failures (snd (snd (count_downloads ?bot i msgs 0 s)))
      = failures (snd s)
        @ map (\<lambda>r. msg_id (fst r)) (filter (\<lambda>r. \<not> snd r) (item_results ?bot i msgs s))"
  proof (rule count_downloads_failures_results)
    fix j msg ok and t t' :: "'w sys"
    assume "msg \<in> set msgs" and "download_item c base_dir j msg t = (ok, t')"
    with media show "failures (snd t') = failures (snd t) @ (if ok then [] else [msg_id msg])"
      using download_item_effect(3) by blast
  qed
  show "map fst (attempts (snd (snd (count_downloads ?bot i msgs 0 s))))
      = map fst (attempts (snd s)) @ msgs"
    using bot_loop_effect(1) [OF media, of c base_dir i 0 s]
    by (cases "count_downloads ?bot i msgs 0 s")
       (simp add: case_prod_unfold o_def flip: map_map [of snd])
  show "map fst (item_results ?bot i msgs s) = msgs"
    by simp
  show "fst (count_downloads ?thr i msgs 0 s)
      = int (length (filter snd (item_results ?thr i msgs s)))"
    by (simp add: count_downloads_item_results)
  show "failures (snd (snd (count_downloads ?thr i msgs 0 s)))
      = failures (snd s)
        @ map (\<lambda>r. msg_id (fst r)) (filter (\<lambda>r. \<not> snd r) (item_results ?thr i msgs s))"
  proof (rule count_downloads_failures_results)
    fix j msg ok and t t' :: "'w sys"
    assume "msg \<in> set msgs" and "download_media_from_message c msg base_dir j t = (ok, t')"
    with media show "failures (snd t') = failures (snd t) @ (if ok then [] else [msg_id msg])"
      using download_media_from_message_effect(2) by blast
  qed
  show "mkdirs (snd (snd (count_downloads ?thr i msgs 0 s)))
      = mkdirs (snd s) @ map (\<lambda>m. save_dir_of base_dir (kind_of m)) msgs"
    using thread_loop_effect(1) [OF media, of c base_dir i 0 s]
    by (cases "count_downloads ?thr i msgs 0 s") simp
  show "map fst (item_results ?thr i msgs s) = msgs"
    by simp
next
  fix w1 w2
  assume "filter (\<lambda>m. \<not> out m \<and> has_media m) messages \<noteq> []"
    and "mkdir c (base_dir @ [images_name]) w = (True, w1)"
    and "mkdir c (base_dir @ [videos_name]) w1 = (True, w2)"
  then show "download_media_messages c messages base_dir start_index (w, tr)
      = (Inr (fst (count_downloads (download_item c base_dir) (start_index + 1)
                     (sort_key msg_id (filter (\<lambda>m. \<not> out m \<and> has_media m) messages)) 0
                     (w2, tr @ [Mkdir (base_dir @ [images_name]), Mkdir (base_dir @ [videos_name])]))),
         snd (count_downloads (download_item c base_dir) (start_index + 1)
                (sort_key msg_id (filter (\<lambda>m. \<not> out m \<and> has_media m) messages)) 0
                (w2, tr @ [Mkdir (base_dir @ [images_name]), Mkdir (base_dir @ [videos_name])])))"
    by (rule download_media_messages_run)
qed

theorem item_failure_does_not_abort_witness:
  "fst (count_downloads (download_item (script_env [13]) [''dl'']) 1
          [photo_msg 12 False [], photo_msg 13 False [], photo_msg 14 False []] 0 ([], [])) = 2
   \<and> failures (snd (snd (count_downloads (download_item (script_env [13]) [''dl'']) 1
          [photo_msg 12 False [], photo_msg 13 False [], photo_msg 14 False []] 0 ([], [])))) = [13]
   \<and> download_item rename_fails_env [''dl''] 1 (photo_msg 12 False []) ([], [])
       = (False, [], [DownloadMedia (photo_msg 12 False []) [''dl'', images_name, ''001.jpg''],
                      Rename [''dl'', images_name, ''001.jpg'']
                             [''dl'', images_name, ''1700_001.jpg''],
                      LogFailed 12])"
proof -
  let ?batch = "[photo_msg 12 False [], photo_msg 13 False [], photo_msg 14 False []]"
  have media: "\<forall>m\<in>set ?batch. has_media m"
    by (simp add: has_media_def photo_msg_def)
  have res: "item_results (download_item (script_env [13]) [''dl'']) 1 ?batch ([], [])
      = [(photo_msg 12 False [], True), (photo_msg 13 False [], False),
         (photo_msg 14 False [], True)]"
    by code_simp
  note loop = item_failure_does_not_abort
    [where c = "script_env [13]" and base_dir = "[''dl'']" and msgs = ?batch and i = 1
       and s = "([], [])", THEN conjunct2, THEN conjunct1, THEN mp, OF media]
  have a: "fst (count_downloads (download_item (script_env [13]) [''dl'']) 1 ?batch 0 ([], [])) = 2"
  proof -
    have "fst (count_downloads (download_item (script_env [13]) [''dl'']) 1 ?batch 0 ([], []))
        = int (length (filter snd [(photo_msg 12 False [], True), (photo_msg 13 False [], False),
            (photo_msg 14 False [], True)]))"
      using loop [THEN conjunct1] by (simp only: res)
    also have "\<dots> = 2"
      by simp
    finally show ?thesis .
  qed
  have b: "failures (snd (snd (count_downloads (download_item (script_env [13]) [''dl'']) 1
      ?batch 0 ([], [])))) = [13]"
  proof -
    have "failures (snd (snd (count_downloads (download_item (script_env [13]) [''dl'']) 1
        ?batch 0 ([], []))))
        = failures (snd (([] :: message list list), ([] :: event list)))
          @ map (\<lambda>r. msg_id (fst r))
              (filter (\<lambda>r. \<not> snd r) [(photo_msg 12 False [], True),
                 (photo_msg 13 False [], False), (photo_msg 14 False [], True)])"
      using loop [THEN conjunct2, THEN conjunct1] by (simp only: res)
    also have "\<dots> = [13]"
      by (simp add: photo_msg_def)
    finally show ?thesis .
  qed
  have m: "has_media (photo_msg 12 False [])"
    by (simp add: has_media_def photo_msg_def)
  have p: "temp_path [''dl''] 1 (photo_msg 12 False []) = [''dl'', images_name, ''001.jpg'']"
    "final_path [''dl''] 1 1700 (photo_msg 12 False []) = [''dl'', images_name, ''1700_001.jpg'']"
    by code_simp+
  have i: "msg_id (photo_msg 12 False []) = 12"
    by (simp add: photo_msg_def)
  have c: "download_item rename_fails_env [''dl''] 1 (photo_msg 12 False []) ([], [])
      = (False, [], [DownloadMedia (photo_msg 12 False []) [''dl'', images_name, ''001.jpg''],
                     Rename [''dl'', images_name, ''001.jpg'']
                            [''dl'', images_name, ''1700_001.jpg''],
                     LogFailed 12])"
    using item_failure_does_not_abort
      [where c = rename_fails_env and base_dir = "[''dl'']" and msg = "photo_msg 12 False []"
         and idx = 1 and w = "[]" and tr = "[]", THEN conjunct1, THEN mp, OF m,
       THEN conjunct2, THEN conjunct1, rule_format,
       of "[]" 1700 "[]" False "[]"]
    by (simp add: p i rename_fails_env_def script_env_def)
  from a b c show ?thesis
    by simp
qed

section \<open>Termination and exits of the page loop\<close>

text \<open>How one loop body ends, from the answers of the world.\<close>

lemma page_body_fetch_raises:
  assumes "get_messages c 50 (fst (sys st)) = (None, w1)"
  shows "fst (page_body c out_dir wm st) = Some (Raised GetMessagesError)"
  using assms by (cases "sys st") (simp add: page_body_def)

lemma page_body_no_new_messages:
  assumes "get_messages c 50 (fst (sys st)) = (Some messages, w1)"
    and "filter (\<lambda>msg. wm < msg_id msg \<and> msg_id msg \<notin> downloaded_msg_ids st) messages = []"
  shows "fst (page_body c out_dir wm st) = Some NoNewMessages"
  using assms by (cases "sys st") (simp add: page_body_def)

lemma page_body_batch_raises:
  assumes "get_messages c 50 (fst (sys st)) = (Some messages, w1)"
    and "filter (\<lambda>msg. wm < msg_id msg \<and> msg_id msg \<notin> downloaded_msg_ids st) messages \<noteq> []"
    and "download_media_messages c
           (filter (\<lambda>msg. wm < msg_id msg \<and> msg_id msg \<notin> downloaded_msg_ids st) messages)
           out_dir (total_downloaded st) (w1, snd (sys st) @ [GetMessages 50]) = (Inl e, s2)"
  shows "fst (page_body c out_dir wm st) = Some (Raised e)"
  using assms by (cases "sys st") (simp add: page_body_def Let_def)

lemma page_body_after_batch:
  assumes "get_messages c 50 (fst (sys st)) = (Some messages, w1)"
    and "filter (\<lambda>msg. wm < msg_id msg \<and> msg_id msg \<notin> downloaded_msg_ids st) messages \<noteq> []"
    and "download_media_messages c
           (filter (\<lambda>msg. wm < msg_id msg \<and> msg_id msg \<notin> downloaded_msg_ids st) messages)
           out_dir (total_downloaded st) (w1, snd (sys st) @ [GetMessages 50]) = (Inr n, s2)"
  shows "fst (page_body c out_dir wm st)
      = (case find_next_page_button
                (filter (\<lambda>msg. wm < msg_id msg \<and> msg_id msg \<notin> downloaded_msg_ids st) messages)
                (current_page st) of
           Inl e \<Rightarrow> Some (Raised e)
         | Inr None \<Rightarrow> Some NoNextButton
         | Inr (Some (msg_with_btn, next_btn)) \<Rightarrow>
             if fst (click c msg_with_btn next_btn (fst s2)) then None
             else Some (Raised ClickError))"
  using assms
  by (cases "sys st"; cases s2)
     (simp add: page_body_def Let_def case_prod_unfold split: sum.splits option.splits)

lemma page_body_exits:
  fixes c :: "'w env"
  shows "fst (page_body c out_dir wm st) \<noteq> Some PageLimit
       \<and> (fst (page_body c out_dir wm st) = Some NoNewMessages \<longleftrightarrow>
            (\<exists>messages w1. get_messages c 50 (fst (sys st)) = (Some messages, w1)
               \<and> filter (\<lambda>msg. wm < msg_id msg \<and> msg_id msg \<notin> downloaded_msg_ids st) messages
                   = []))
       \<and> (fst (page_body c out_dir wm st) = Some NoNextButton \<longleftrightarrow>
            (\<exists>messages w1 n s2. get_messages c 50 (fst (sys st)) = (Some messages, w1)
               \<and> filter (\<lambda>msg. wm < msg_id msg \<and> msg_id msg \<notin> downloaded_msg_ids st) messages
                   \<noteq> []
               \<and> download_media_messages c
                    (filter (\<lambda>msg. wm < msg_id msg \<and> msg_id msg \<notin> downloaded_msg_ids st)
                       messages)
                    out_dir (total_downloaded st) (w1, snd (sys st) @ [GetMessages 50])
                   = (Inr n, s2)
               \<and> find_next_page_button
                    (filter (\<lambda>msg. wm < msg_id msg \<and> msg_id msg \<notin> downloaded_msg_ids st)
                       messages)
                    (current_page st) = Inr None))
       \<and> (fst (page_body c out_dir wm st) = None \<longleftrightarrow>
            (\<exists>messages w1 n s2 msg_with_btn next_btn.
                 get_messages c 50 (fst (sys st)) = (Some messages, w1)
               \<and> filter (\<lambda>msg. wm < msg_id msg \<and> msg_id msg \<notin> downloaded_msg_ids st) messages
                   \<noteq> []
               \<and> download_media_messages c
                    (filter (\<lambda>msg. wm < msg_id msg \<and> msg_id msg \<notin> downloaded_msg_ids st)
                       messages)
                    out_dir (total_downloaded st) (w1, snd (sys st) @ [GetMessages 50])
                   = (Inr n, s2)
               \<and> find_next_page_button
                    (filter (\<lambda>msg. wm < msg_id msg \<and> msg_id msg \<notin> downloaded_msg_ids st)
                       messages)
                    (current_page st) = Inr (Some (msg_with_btn, next_btn))
               \<and> fst (click c msg_with_btn next_btn (fst s2))))
       \<and> (\<forall>e. fst (page_body c out_dir wm st) = Some (Raised e) \<longleftrightarrow>
            (\<exists>fetched w1. get_messages c 50 (fst (sys st)) = (fetched, w1)
               \<and> (case fetched of
                     None \<Rightarrow> e = GetMessagesError
                   | Some messages \<Rightarrow>
                       filter (\<lambda>msg. wm < msg_id msg \<and> msg_id msg \<notin> downloaded_msg_ids st)
                         messages \<noteq> []
                     \<and> (\<exists>res s2.
                          download_media_messages c
                            (filter (\<lambda>msg. wm < msg_id msg
                                       \<and> msg_id msg \<notin> downloaded_msg_ids st) messages)
                            out_dir (total_downloaded st) (w1, snd (sys st) @ [GetMessages 50])
                           = (res, s2)
                        \<and> (case res of
                              Inl e' \<Rightarrow> e = e'
                            | Inr n \<Rightarrow>
                                (case find_next_page_button
                                        (filter (\<lambda>msg. wm < msg_id msg
                                                   \<and> msg_id msg \<notin> downloaded_msg_ids st)
                                           messages)
                                        (current_page st) of
                                   Inl e' \<Rightarrow> e = e'
                                 | Inr None \<Rightarrow> False
                                 | Inr (Some (msg_with_btn, next_btn)) \<Rightarrow>
                                     e = ClickError
                                   \<and> \<not> fst (click c msg_with_btn next_btn (fst s2))))))))"
proof -
  let ?new = "\<lambda>messages.
    filter (\<lambda>msg. wm < msg_id msg \<and> msg_id msg \<notin> downloaded_msg_ids st) messages"
  obtain fetched w1 where g: "get_messages c 50 (fst (sys st)) = (fetched, w1)"
    by (cases "get_messages c 50 (fst (sys st))") auto
  show ?thesis
  proof (cases fetched)
    case None
    with g page_body_fetch_raises [of c st w1 out_dir wm] show ?thesis
      by auto
  next
    case (Some messages)
    show ?thesis
    proof (cases "?new messages = []")
      case True
      with g Some page_body_no_new_messages [of c st messages w1 wm out_dir] show ?thesis
        by auto
    next
      case False
      obtain res w2 tr2 where d: "download_media_messages c (?new messages) out_dir
          (total_downloaded st) (w1, snd (sys st) @ [GetMessages 50]) = (res, (w2, tr2))"
        by (cases "download_media_messages c (?new messages) out_dir
          (total_downloaded st) (w1, snd (sys st) @ [GetMessages 50])") auto
      show ?thesis
      proof (cases res)
        case (Inl e)
        with g Some False d page_body_batch_raises [of c st messages w1 wm out_dir e "(w2, tr2)"]
        show ?thesis
          by auto
      next
        case (Inr n)
        with g Some False d page_body_after_batch [of c st messages w1 wm out_dir n "(w2, tr2)"]
        show ?thesis
          by (auto split: sum.splits option.splits if_splits)
      qed
    qed
  qed
qed

text \<open>
  The loop is left because its condition fails, or by the exit of one of its bodies.
\<close>

lemma page_loop_exit:
  assumes "page_loop fuel c out_dir max_pages wm st0 = (Some r, st)"
  shows "(r = PageLimit \<and> max_pages \<noteq> 0 \<and> max_pages < current_page st)
       \<or> (\<exists>st1. (max_pages = 0 \<or> current_page st1 \<le> max_pages)
             \<and> page_body c out_dir wm st1 = (Some r, st))"
  using assms
proof (induction fuel arbitrary: st0)
  case 0
  then show ?case
    by (auto simp: page_loop.simps [of 0] split: if_splits)
next
  case (Suc fuel)
  show ?case
  proof (cases "max_pages = 0 \<or> current_page st0 \<le> max_pages")
    case False
    with Suc.prems show ?thesis
      by (auto simp: page_loop.simps [of "Suc fuel"])
  next
    case True
    obtain r0 st1 where b: "page_body c out_dir wm st0 = (r0, st1)"
      by (cases "page_body c out_dir wm st0") auto
    show ?thesis
    proof (cases r0)
      case None
      with True b Suc.prems have "page_loop fuel c out_dir max_pages wm st1 = (Some r, st)"
        by (simp add: page_loop.simps [of "Suc fuel"])
      from Suc.IH [OF this] show ?thesis .
    next
      case (Some r')
      with True b Suc.prems have "r' = r" "st1 = st"
        by (simp_all add: page_loop.simps [of "Suc fuel"])
      with True b Some show ?thesis
        by blast
    qed
  qed
qed

text \<open>What can end the run before the loop is entered.\<close>

lemma interact_with_bot_start:
  "(\<exists>e w' tr. interact_with_bot fuel c bot_username start_param out_dir max_pages w
        = (Some (Raised e), \<lparr>sys = (w', tr), total_downloaded = 0, current_page = 1,
                              downloaded_msg_ids = {}\<rparr>)
      \<and> e \<in> {GetEntityError, GetMessagesError, SendMessageError} \<and> pages tr = 0)
   \<or> (\<exists>wm w'. interact_with_bot fuel c bot_username start_param out_dir max_pages w
        = page_loop fuel c out_dir max_pages wm
            \<lparr>sys = (w', [GetMessages 1]), total_downloaded = 0, current_page = 1,
              downloaded_msg_ids = {}\<rparr>)"
proof -
  obtain ok1 w1 where a: "get_entity c bot_username w = (ok1, w1)"
    by (cases "get_entity c bot_username w") auto
  obtain old w2 where b: "get_messages c 1 w1 = (old, w2)"
    by (cases "get_messages c 1 w1") auto
  obtain ok3 w3 where d: "send_message c (''/start '' @ start_param) w2 = (ok3, w3)"
    by (cases "send_message c (''/start '' @ start_param) w2") auto
  show ?thesis
  proof (cases "ok1 \<and> old \<noteq> None \<and> ok3")
    case True
    then obtain old_messages where "old = Some old_messages" by auto
    with True a b d show ?thesis
      by (intro disjI2) (auto simp: interact_with_bot_def Let_def)
  next
    case False
    with a b d show ?thesis
      by (intro disjI1) (auto simp: interact_with_bot_def Let_def pages_def split: option.splits)
  qed
qed

text \<open>
  C2. With a page limit \<open>max_pages > 0\<close>, \<open>max_pages\<close> loop bodies are enough for the run of
  \<open>interact_with_bot\<close> to end, whatever the bot answers, and at most \<open>max_pages\<close> bodies are
  run. The run ends with the page limit exactly when the page counter has passed
  \<open>max_pages\<close>, and then exactly \<open>max_pages\<close> bodies were run. Any other end is the end of
  a loop body entered with a page counter within the limit, or an exception of the three
  calls made before the loop. A body never ends with the page limit; it ends with
  \<open>NoNewMessages\<close> exactly when the fetch succeeded and brought no new message, with
  \<open>NoNextButton\<close> exactly when the batch of the new messages returned and
  \<open>find_next_page_button\<close> found no button, it goes on to the next page exactly when a
  button was found and the click succeeded, and it ends with an exception exactly when
  the fetch, the batch, the decoding of a callback token or the click raised. So an
  exception is a fourth way to leave the loop.
\<close>

theorem pagination_halts_within_max_pages:
  fixes c :: "'w env"
  assumes "0 < max_pages" and "nat max_pages \<le> fuel"
  shows "\<exists>r st. interact_with_bot fuel c bot_username start_param out_dir max_pages w = (Some r, st)
     \<and> pages (snd (sys st)) \<le> nat max_pages
     \<and> (r = PageLimit \<longleftrightarrow> current_page st = max_pages + 1)
     \<and> (r = PageLimit \<longrightarrow> pages (snd (sys st)) = nat max_pages)
     \<and> (r \<noteq> PageLimit \<longrightarrow>
          (pages (snd (sys st)) = 0
           \<and> r \<in> {Raised GetEntityError, Raised GetMessagesError, Raised SendMessageError})
        \<or> (\<exists>wm st1. current_page st1 \<le> max_pages
              \<and> page_body c out_dir wm st1 = (Some r, st)))
     \<and> (\<forall>wm st1.
          fst (page_body c out_dir wm st1) \<noteq> Some PageLimit
        \<and> (fst (page_body c out_dir wm st1) = Some NoNewMessages \<longleftrightarrow>
            (\<exists>messages w1. get_messages c 50 (fst (sys st1)) = (Some messages, w1)
               \<and> filter (\<lambda>msg. wm < msg_id msg \<and> msg_id msg \<notin> downloaded_msg_ids st1) messages
                   = []))
        \<and> (fst (page_body c out_dir wm st1) = Some NoNextButton \<longleftrightarrow>
            (\<exists>messages w1 n s2. get_messages c 50 (fst (sys st1)) = (Some messages, w1)
               \<and> filter (\<lambda>msg. wm < msg_id msg \<and> msg_id msg \<notin> downloaded_msg_ids st1) messages
                   \<noteq> []
               \<and> download_media_messages c
                    (filter (\<lambda>msg. wm < msg_id msg \<and> msg_id msg \<notin> downloaded_msg_ids st1)
                       messages)
                    out_dir (total_downloaded st1) (w1, snd (sys st1) @ [GetMessages 50])
                   = (Inr n, s2)
               \<and> find_next_page_button
                    (filter (\<lambda>msg. wm < msg_id msg \<and> msg_id msg \<notin> downloaded_msg_ids st1)
                       messages)
                    (current_page st1) = Inr None))
        \<and> (fst (page_body c out_dir wm st1) = None \<longleftrightarrow>
            (\<exists>messages w1 n s2 msg_with_btn next_btn.
                 get_messages c 50 (fst (sys st1)) = (Some messages, w1)
               \<and> filter (\<lambda>msg. wm < msg_id msg \<and> msg_id msg \<notin> downloaded_msg_ids st1) messages
                   \<noteq> []
               \<and> download_media_messages c
                    (filter (\<lambda>msg. wm < msg_id msg \<and> msg_id msg \<notin> downloaded_msg_ids st1)
                       messages)
                    out_dir (total_downloaded st1) (w1, snd (sys st1) @ [GetMessages 50])
                   = (Inr n, s2)
               \<and> find_next_page_button
                    (filter (\<lambda>msg. wm < msg_id msg \<and> msg_id msg \<notin> downloaded_msg_ids st1)
                       messages)
                    (current_page st1) = Inr (Some (msg_with_btn, next_btn))
               \<and> fst (click c msg_with_btn next_btn (fst s2))))
        \<and> (\<forall>e. fst (page_body c out_dir wm st1) = Some (Raised e) \<longleftrightarrow>
            (\<exists>fetched w1. get_messages c 50 (fst (sys st1)) = (fetched, w1)
               \<and> (case fetched of
                     None \<Rightarrow> e = GetMessagesError
                   | Some messages \<Rightarrow>
                       filter (\<lambda>msg. wm < msg_id msg \<and> msg_id msg \<notin> downloaded_msg_ids st1)
                         messages \<noteq> []
                     \<and> (\<exists>res s2.
                          download_media_messages c
                            (filter (\<lambda>msg. wm < msg_id msg
                                       \<and> msg_id msg \<notin> downloaded_msg_ids st1) messages)
                            out_dir (total_downloaded st1)
                            (w1, snd (sys st1) @ [GetMessages 50])
                           = (res, s2)
                        \<and> (case res of
                              Inl e' \<Rightarrow> e = e'
                            | Inr n \<Rightarrow>
                                (case find_next_page_button
                                        (filter (\<lambda>msg. wm < msg_id msg
                                                   \<and> msg_id msg \<notin> downloaded_msg_ids st1)
                                           messages)
                                        (current_page st1) of
                                   Inl e' \<Rightarrow> e = e'
                                 | Inr None \<Rightarrow> False
                                 | Inr (Some (msg_with_btn, next_btn)) \<Rightarrow>
                                     e = ClickError
                                   \<and> \<not> fst (click c msg_with_btn next_btn (fst s2)))))))))"
proof -
  let ?run = "interact_with_bot fuel c bot_username start_param out_dir max_pages w"
  have loop: "\<exists>r st. ?run = (Some r, st)
     \<and> pages (snd (sys st)) \<le> nat max_pages
     \<and> (r = PageLimit \<longleftrightarrow> current_page st = max_pages + 1)
     \<and> (r = PageLimit \<longrightarrow> pages (snd (sys st)) = nat max_pages)
     \<and> (r \<noteq> PageLimit \<longrightarrow>
          (pages (snd (sys st)) = 0
           \<and> r \<in> {Raised GetEntityError, Raised GetMessagesError, Raised SendMessageError})
        \<or> (\<exists>wm st1. current_page st1 \<le> max_pages
              \<and> page_body c out_dir wm st1 = (Some r, st)))"
    using interact_with_bot_start [of fuel c bot_username start_param out_dir max_pages w]
  proof
    assume "\<exists>e w' tr. ?run
        = (Some (Raised e), \<lparr>sys = (w', tr), total_downloaded = 0, current_page = 1,
                              downloaded_msg_ids = {}\<rparr>)
      \<and> e \<in> {GetEntityError, GetMessagesError, SendMessageError} \<and> pages tr = 0"
    with assms(1) show ?thesis
      by auto
  next
    assume "\<exists>wm w'. ?run
        = page_loop fuel c out_dir max_pages wm
            \<lparr>sys = (w', [GetMessages 1]), total_downloaded = 0, current_page = 1,
              downloaded_msg_ids = {}\<rparr>"
    then obtain wm w' where l: "?run = page_loop fuel c out_dir max_pages wm
        \<lparr>sys = (w', [GetMessages 1]), total_downloaded = 0, current_page = 1,
          downloaded_msg_ids = {}\<rparr>"
      by blast
    let ?st0 = "\<lparr>sys = (w', [GetMessages 1]), total_downloaded = 0, current_page = 1,
      downloaded_msg_ids = {}\<rparr>"
    have f: "nat (max_pages + 1 - current_page ?st0) \<le> fuel"
      using assms(2) by simp
    from page_loop_halts [OF assms(1) f, of c out_dir wm] obtain r st where
      h: "page_loop fuel c out_dir max_pages wm ?st0 = (Some r, st)"
      "pages (snd (sys st)) \<le> pages (snd (sys ?st0)) + nat (max_pages + 1 - current_page ?st0)"
      "r = PageLimit \<longrightarrow> current_page ?st0 \<le> max_pages + 1 \<longrightarrow>
         current_page st = max_pages + 1
         \<and> pages (snd (sys st))
             = pages (snd (sys ?st0)) + nat (max_pages + 1 - current_page ?st0)"
      by blast
    have p0: "pages (snd (sys ?st0)) = 0"
      by (simp add: pages_def)
    have b: "pages (snd (sys st)) \<le> nat max_pages"
      using h(2) p0 by simp
    have lim: "r = PageLimit \<longrightarrow>
        current_page st = max_pages + 1 \<and> pages (snd (sys st)) = nat max_pages"
      using h(3) p0 assms(1) by simp
    have other: "\<exists>st1. current_page st1 \<le> max_pages \<and> current_page st = current_page st1
        \<and> page_body c out_dir wm st1 = (Some r, st)" if "r \<noteq> PageLimit"
    proof -
      from page_loop_exit [OF h(1)] that assms(1) obtain st1 where
        s: "current_page st1 \<le> max_pages" "page_body c out_dir wm st1 = (Some r, st)"
        by auto
      from page_body_summary [OF s(2)] have "current_page st = current_page st1"
        by blast
      with s show ?thesis
        by blast
    qed
    have "r = PageLimit \<longleftrightarrow> current_page st = max_pages + 1"
    proof
      assume "r = PageLimit"
      with lim show "current_page st = max_pages + 1"
        by simp
    next
      assume m: "current_page st = max_pages + 1"
      show "r = PageLimit"
      proof (rule ccontr)
        assume "r \<noteq> PageLimit"
        from other [OF this] obtain st1 :: "'w loop_state" where
          "current_page st1 \<le> max_pages" "current_page st = current_page st1"
          by blast
        with m show False
          by simp
      qed
    qed
    moreover have "r \<noteq> PageLimit \<longrightarrow>
          (pages (snd (sys st)) = 0
           \<and> r \<in> {Raised GetEntityError, Raised GetMessagesError, Raised SendMessageError})
        \<or> (\<exists>wm st1. current_page st1 \<le> max_pages
              \<and> page_body c out_dir wm st1 = (Some r, st))"
      using other by blast
    ultimately show ?thesis
      using l h(1) b lim by (intro exI [of _ r] exI [of _ st]) simp
  qed
  then obtain r st where r: "?run = (Some r, st)"
     "pages (snd (sys st)) \<le> nat max_pages"
     "r = PageLimit \<longleftrightarrow> current_page st = max_pages + 1"
     "r = PageLimit \<longrightarrow> pages (snd (sys st)) = nat max_pages"
     "r \<noteq> PageLimit \<longrightarrow>
          (pages (snd (sys st)) = 0
           \<and> r \<in> {Raised GetEntityError, Raised GetMessagesError, Raised SendMessageError})
        \<or> (\<exists>wm st1. current_page st1 \<le> max_pages
              \<and> page_body c out_dir wm st1 = (Some r, st))"
    by blast
  show ?thesis
    apply (rule exI [of _ r], rule exI [of _ st])
    apply (rule conjI, rule r(1))
    apply (rule conjI, rule r(2))
    apply (rule conjI, rule r(3))
    apply (rule conjI, rule r(4))
    apply (rule conjI, rule r(5))
    apply (intro allI)
    apply (rule page_body_exits)
    done
qed

theorem pagination_halts_within_max_pages_witness:
  "fst (interact_with_bot 2 (script_env []) ''bot'' ''abc'' [''dl''] 2 endless_pages) = Some PageLimit
   \<and> pages (snd (sys (snd (interact_with_bot 2 (script_env []) ''bot'' ''abc'' [''dl''] 2
        endless_pages)))) = 2
   \<and> current_page (snd (interact_with_bot 2 (script_env []) ''bot'' ''abc'' [''dl''] 2
        endless_pages)) = 3"
proof -
  have a: "(0::int) < 2" and b: "nat 2 \<le> (2::nat)"
    by simp_all
  have r: "fst (interact_with_bot 2 (script_env []) ''bot'' ''abc'' [''dl''] 2 endless_pages)
      = Some PageLimit"
    by code_simp
  from pagination_halts_within_max_pages [OF a b, of "script_env []" "''bot''" "''abc''"
      "[''dl'']" endless_pages]
  obtain r0 st0 where
    e: "interact_with_bot 2 (script_env []) ''bot'' ''abc'' [''dl''] 2 endless_pages
          = (Some r0, st0)"
    and l: "r0 = PageLimit \<longleftrightarrow> current_page st0 = 2 + 1"
    and p: "r0 = PageLimit \<longrightarrow> pages (snd (sys st0)) = nat 2"
    by blast
  from e r have "r0 = PageLimit"
    by simp
  with e l p show ?thesis
    by simp
qed

text \<open>
  A run with page limit 3 in which the click on the next-page button raises: the loop is
  left in its first body by the exception, which is none of the three exits.
\<close>

theorem pagination_left_by_exception:
  "fst (interact_with_bot 3 click_fails_env ''bot'' ''abc'' [''dl''] 3 endless_pages)
     = Some (Raised ClickError)
   \<and> pages (snd (sys (snd (interact_with_bot 3 click_fails_env ''bot'' ''abc'' [''dl''] 3
        endless_pages)))) = 1
   \<and> current_page (snd (interact_with_bot 3 click_fails_env ''bot'' ''abc'' [''dl''] 3
        endless_pages)) = 1"
  by code_simp

end
